theory Spec2Isabelle
  imports Complex_Main
begin

section \<open>The configuration environment of MABE2: entries, scopes and the function adapter\<close>

text \<open>
  The development follows \<^verbatim>\<open>ConfigEntry.h\<close>, \<^verbatim>\<open>ConfigScope.h\<close> and
  \<^verbatim>\<open>Emplode/EmplodeTools.hpp\<close>. Objects live in an explicit store; an
  \<^verbatim>\<open>emp::Ptr\<close> is an address, \<^verbatim>\<open>nullptr\<close> is \<open>None\<close>. A C++ \<^verbatim>\<open>double\<close> is
  represented by the number it holds: the functions below store, copy and compare such
  values, and the rounding of binary64 arithmetic is not modelled.
\<close>

type_synonym double = real
type_synonym addr = nat
type_synonym var_ref = nat

subsection \<open>What the code takes from the Empirical library and the build\<close>

text \<open>
  \<^verbatim>\<open>emp::Range<double>\<close> with its \<^verbatim>\<open>SetLower\<close>, \<^verbatim>\<open>emp::to_string\<close>,
  \<^verbatim>\<open>emp::from_string<double>\<close> and \<^verbatim>\<open>emp_assert\<close> belong to the Empirical library.
  The conversions and the default-constructed range are parameters of the model. An
  \<^verbatim>\<open>emp_assert\<close> whose condition is false aborts the process, unless the build
  defines \<^verbatim>\<open>NDEBUG\<close>, which compiles every \<^verbatim>\<open>emp_assert\<close> out.
\<close>

record Range =
  lower :: double
  upper :: double

definition SetLower :: "double \<Rightarrow> Range \<Rightarrow> Range" where
  "SetLower l r = r\<lparr>lower := l\<rparr>"

record emp =
  to_string :: "double \<Rightarrow> string"
  from_string :: "string \<Rightarrow> double"
  Range_default :: Range
  NDEBUG :: bool

datatype 'a outcome =
    Returned 'a
  | Aborted
  | Undefined

definition emp_assert :: "emp \<Rightarrow> bool \<Rightarrow> 'a outcome \<Rightarrow> 'a outcome" where
  "emp_assert E cond rest = (if NDEBUG E \<or> cond then rest else Aborted)"

subsection \<open>ConfigEntry: the fields and the members of the base class\<close>

datatype Format = NONE | SCOPE | BOOL | INT | UNSIGNED | DOUBLE
  | STRING | FILENAME | PATH | URL | ALPHABETIC | ALPHANUMERIC | NUMERIC

record ConfigEntry =
  name :: string
  desc :: string
  default_val :: string
  scope :: "addr option"
  is_temporary :: bool
  format :: Format
  range_c :: Range
  integer_only :: bool

definition ConfigEntry_ctor :: "emp \<Rightarrow> string \<Rightarrow> string \<Rightarrow> addr option \<Rightarrow> ConfigEntry" where
  "ConfigEntry_ctor E n d s =
     \<lparr>name = n, desc = d, default_val = [], scope = s, is_temporary = False,
      format = NONE, range_c = Range_default E, integer_only = False\<rparr>"

definition SetName :: "string \<Rightarrow> 'a ConfigEntry_scheme \<Rightarrow> 'a ConfigEntry_scheme" where
  "SetName x e = e\<lparr>name := x\<rparr>"

definition SetDesc :: "string \<Rightarrow> 'a ConfigEntry_scheme \<Rightarrow> 'a ConfigEntry_scheme" where
  "SetDesc x e = e\<lparr>desc := x\<rparr>"

definition SetDefault :: "string \<Rightarrow> 'a ConfigEntry_scheme \<Rightarrow> 'a ConfigEntry_scheme" where
  "SetDefault x e = e\<lparr>default_val := x\<rparr>"

definition SetTemporary :: "bool \<Rightarrow> 'a ConfigEntry_scheme \<Rightarrow> 'a ConfigEntry_scheme" where
  "SetTemporary x e = e\<lparr>is_temporary := x\<rparr>"

definition SetMin :: "double \<Rightarrow> 'a ConfigEntry_scheme \<Rightarrow> 'a ConfigEntry_scheme" where
  "SetMin m e = e\<lparr>range_c := SetLower m (range_c e)\<rparr>"

definition SetMax :: "double \<Rightarrow> 'a ConfigEntry_scheme \<Rightarrow> 'a ConfigEntry_scheme" where
  "SetMax m e = e\<lparr>range_c := SetLower m (range_c e)\<rparr>"

text \<open>The bodies that the base class gives to its virtual mutators.\<close>

definition ConfigEntry_SetValue ::
  "emp \<Rightarrow> double \<Rightarrow> 'a ConfigEntry_scheme \<Rightarrow> 'a ConfigEntry_scheme outcome" where
  "ConfigEntry_SetValue E x e = emp_assert E False (Returned e)"

definition ConfigEntry_SetString ::
  "emp \<Rightarrow> string \<Rightarrow> 'a ConfigEntry_scheme \<Rightarrow> 'a ConfigEntry_scheme outcome" where
  "ConfigEntry_SetString E x e = emp_assert E False (Returned e)"

definition ConfigEntry_CopyValue :: "'a ConfigEntry_scheme \<Rightarrow> bool \<times> 'a ConfigEntry_scheme" where
  "ConfigEntry_CopyValue e = (False, e)"

definition ConfigEntry_UpdateDefault :: "'a ConfigEntry_scheme \<Rightarrow> 'a ConfigEntry_scheme" where
  "ConfigEntry_UpdateDefault e = e\<lparr>default_val := []\<rparr>"

text \<open>Every member of the class that can change a ConfigEntry, as one operation type.\<close>

datatype operation =
    Op_SetName string
  | Op_SetDesc string
  | Op_SetDefault string
  | Op_SetTemporary bool
  | Op_SetValue double
  | Op_SetString string
  | Op_SetMin double
  | Op_SetMax double
  | Op_CopyValue
  | Op_UpdateDefault

fun apply_operation :: "emp \<Rightarrow> operation \<Rightarrow> ConfigEntry \<Rightarrow> ConfigEntry outcome" where
  "apply_operation E (Op_SetName x) e = Returned (SetName x e)"
| "apply_operation E (Op_SetDesc x) e = Returned (SetDesc x e)"
| "apply_operation E (Op_SetDefault x) e = Returned (SetDefault x e)"
| "apply_operation E (Op_SetTemporary x) e = Returned (SetTemporary x e)"
| "apply_operation E (Op_SetValue x) e = ConfigEntry_SetValue E x e"
| "apply_operation E (Op_SetString x) e = ConfigEntry_SetString E x e"
| "apply_operation E (Op_SetMin x) e = Returned (SetMin x e)"
| "apply_operation E (Op_SetMax x) e = Returned (SetMax x e)"
| "apply_operation E Op_CopyValue e = Returned (snd (ConfigEntry_CopyValue e))"
| "apply_operation E Op_UpdateDefault e = Returned (ConfigEntry_UpdateDefault e)"

fun apply_operations :: "emp \<Rightarrow> operation list \<Rightarrow> ConfigEntry \<Rightarrow> ConfigEntry outcome" where
  "apply_operations E [] e = Returned e"
| "apply_operations E (x # xs) e =
     (case apply_operation E x e of
        Returned e' \<Rightarrow> apply_operations E xs e'
      | Aborted \<Rightarrow> Aborted
      | Undefined \<Rightarrow> Undefined)"

subsection \<open>The derived classes and the store\<close>

text \<open>
  The classes under \<^verbatim>\<open>ConfigEntry\<close> that the sources define:
  \<^verbatim>\<open>ConfigEntry_Linked<T>\<close> (the generic template at \<^verbatim>\<open>T = double\<close>, and its
  specialisation at \<^verbatim>\<open>std::string\<close>), which holds a reference \<^verbatim>\<open>T & var\<close> to a
  variable of the host; \<^verbatim>\<open>ConfigEntry_DoubleVar\<close> and \<^verbatim>\<open>ConfigEntry_StringVar\<close>,
  which hold their own \<^verbatim>\<open>value\<close>; and \<^verbatim>\<open>ConfigScope\<close> with its two vectors of
  pointers, its map from names to pointers and its \<^verbatim>\<open>type\<close>.
  \<^verbatim>\<open>ConfigFunction\<close> and \<^verbatim>\<open>ConfigEntry_Functions\<close> are not defined in these
  two headers and have no counterpart here.
\<close>

datatype derived =
    ConfigEntry_Linked_double var_ref
  | ConfigEntry_Linked_string var_ref
  | ConfigEntry_DoubleVar double
  | ConfigEntry_StringVar string
  | ConfigScope (entry_list: "addr list") (builtin_list: "addr list")
      (entry_map: "string \<rightharpoonup> addr") (type_s: string)

record entry = ConfigEntry +
  derived :: derived

text \<open>
  The store: the allocated objects, the next address \<^verbatim>\<open>emp::NewPtr\<close> hands out, and
  the variables of the host that linked entries refer to.
\<close>

record heap =
  objs :: "addr \<rightharpoonup> entry"
  next_ptr :: addr
  double_vars :: "var_ref \<Rightarrow> double"
  string_vars :: "var_ref \<Rightarrow> string"

definition NewPtr :: "entry \<Rightarrow> heap \<Rightarrow> addr \<times> heap" where
  "NewPtr e h =
     (next_ptr h, h\<lparr>objs := (objs h)(next_ptr h \<mapsto> e), next_ptr := Suc (next_ptr h)\<rparr>)"

definition IsScope :: "entry \<Rightarrow> bool" where
  "IsScope e = (case derived e of ConfigScope _ _ _ _ \<Rightarrow> True | _ \<Rightarrow> False)"

subsection \<open>Constructors\<close>

definition ConfigScope_ctor ::
  "emp \<Rightarrow> string \<Rightarrow> string \<Rightarrow> addr option \<Rightarrow> string \<Rightarrow> entry" where
  "ConfigScope_ctor E n d s ty =
     ConfigEntry.extend (ConfigEntry_ctor E n d s)
       \<lparr>derived = ConfigScope [] [] Map.empty ty\<rparr>"

definition ConfigEntry_Linked_double_ctor ::
  "emp \<Rightarrow> string \<Rightarrow> var_ref \<Rightarrow> string \<Rightarrow> addr option \<Rightarrow> entry" where
  "ConfigEntry_Linked_double_ctor E in_name in_var d s =
     ConfigEntry.extend (ConfigEntry_ctor E in_name d s)
       \<lparr>derived = ConfigEntry_Linked_double in_var\<rparr>"

definition ConfigEntry_Linked_string_ctor ::
  "emp \<Rightarrow> string \<Rightarrow> var_ref \<Rightarrow> string \<Rightarrow> addr option \<Rightarrow> entry" where
  "ConfigEntry_Linked_string_ctor E in_name in_var d s =
     ConfigEntry.extend (ConfigEntry_ctor E in_name d s)
       \<lparr>derived = ConfigEntry_Linked_string in_var\<rparr>"

definition ConfigEntry_DoubleVar_ctor ::
  "emp \<Rightarrow> string \<Rightarrow> double \<Rightarrow> string \<Rightarrow> addr option \<Rightarrow> entry" where
  "ConfigEntry_DoubleVar_ctor E in_name v d s =
     ConfigEntry.extend (ConfigEntry_ctor E in_name d s)
       \<lparr>derived = ConfigEntry_DoubleVar v\<rparr>"

definition ConfigEntry_StringVar_ctor ::
  "emp \<Rightarrow> string \<Rightarrow> string \<Rightarrow> string \<Rightarrow> addr option \<Rightarrow> entry" where
  "ConfigEntry_StringVar_ctor E in_name in_val d s =
     ConfigEntry.extend (ConfigEntry_ctor E in_name d s)
       \<lparr>derived = ConfigEntry_StringVar in_val\<rparr>"

subsection \<open>ConfigScope: lookup\<close>

text \<open>
  \<open>LookupEntry\<close> is virtual: on a ConfigScope it searches \<open>entry_map\<close> and then
  asks the scope it was declared in; on any other entry the base class answers. The
  result \<open>Some None\<close> is a returned \<^verbatim>\<open>nullptr\<close>. The value \<open>None\<close> stands for
  a call that yields nothing: \<open>this\<close> is not an allocated object, or the chain of
  parents never ends.
\<close>

partial_function (option) LookupEntry ::
  "heap \<Rightarrow> addr \<Rightarrow> string \<Rightarrow> bool \<Rightarrow> addr option option" where
  "LookupEntry h this in_name scan_scopes =
     (case objs h this of
        None \<Rightarrow> None
      | Some e \<Rightarrow>
          (case derived e of
             ConfigScope el bl em ty \<Rightarrow>
               (case em in_name of
                  None \<Rightarrow>
                    if scope e = None \<or> \<not> scan_scopes then Some None
                    else LookupEntry h (the (scope e)) in_name True
                | Some p \<Rightarrow> Some (Some p))
           | _ \<Rightarrow> Some (if in_name = [] then Some this else None)))"

definition GetEntry :: "heap \<Rightarrow> addr \<Rightarrow> string \<Rightarrow> addr option option" where
  "GetEntry h this in_name =
     (case objs h this of
        None \<Rightarrow> None
      | Some e \<Rightarrow>
          (case derived e of
             ConfigScope el bl em ty \<Rightarrow> Some (em in_name)
           | _ \<Rightarrow> None))"

subsection \<open>ConfigScope: declaration\<close>

text \<open>
  \<^verbatim>\<open>Add<T>(name, args...)\<close> allocates \<^verbatim>\<open>T(name, args...)\<close>, pushes the pointer on
  \<open>entry_list\<close> and assigns \<^verbatim>\<open>entry_map[name]\<close>; \<^verbatim>\<open>AddBuiltin\<close> does the same
  with \<open>builtin_list\<close>. The argument \<open>T\<close> is the constructor with its other
  arguments supplied. A member function is called on a scope: the result is \<open>None\<close>
  when \<open>this\<close> is not an allocated ConfigScope.
\<close>

definition Add ::
  "(string \<Rightarrow> entry) \<Rightarrow> string \<Rightarrow> heap \<Rightarrow> addr \<Rightarrow> (addr \<times> heap) option" where
  "Add T n h this =
     (case NewPtr (T n) h of
        (new_ptr, h1) \<Rightarrow>
          (case objs h1 this of
             None \<Rightarrow> None
           | Some e \<Rightarrow>
               (case derived e of
                  ConfigScope el bl em ty \<Rightarrow>
                    Some (new_ptr,
                      h1\<lparr>objs := (objs h1)(this \<mapsto>
                        e\<lparr>derived := ConfigScope (el @ [new_ptr]) bl (em(n \<mapsto> new_ptr)) ty\<rparr>)\<rparr>)
                | _ \<Rightarrow> None)))"

definition AddBuiltin ::
  "(string \<Rightarrow> entry) \<Rightarrow> string \<Rightarrow> heap \<Rightarrow> addr \<Rightarrow> (addr \<times> heap) option" where
  "AddBuiltin T n h this =
     (case NewPtr (T n) h of
        (new_ptr, h1) \<Rightarrow>
          (case objs h1 this of
             None \<Rightarrow> None
           | Some e \<Rightarrow>
               (case derived e of
                  ConfigScope el bl em ty \<Rightarrow>
                    Some (new_ptr,
                      h1\<lparr>objs := (objs h1)(this \<mapsto>
                        e\<lparr>derived := ConfigScope el (bl @ [new_ptr]) (em(n \<mapsto> new_ptr)) ty\<rparr>)\<rparr>)
                | _ \<Rightarrow> None)))"

text \<open>The public declarations; \<open>LinkVar\<close> does not use its \<open>default_val\<close>.\<close>

definition LinkVar_double ::
  "emp \<Rightarrow> string \<Rightarrow> var_ref \<Rightarrow> string \<Rightarrow> string \<Rightarrow> heap \<Rightarrow> addr \<Rightarrow> (addr \<times> heap) option" where
  "LinkVar_double E n var d dflt h this =
     Add (\<lambda>x. ConfigEntry_Linked_double_ctor E x var d (Some this)) n h this"

definition LinkVar_string ::
  "emp \<Rightarrow> string \<Rightarrow> var_ref \<Rightarrow> string \<Rightarrow> string \<Rightarrow> heap \<Rightarrow> addr \<Rightarrow> (addr \<times> heap) option" where
  "LinkVar_string E n var d dflt h this =
     Add (\<lambda>x. ConfigEntry_Linked_string_ctor E x var d (Some this)) n h this"

definition AddStringVar ::
  "emp \<Rightarrow> string \<Rightarrow> string \<Rightarrow> heap \<Rightarrow> addr \<Rightarrow> (addr \<times> heap) option" where
  "AddStringVar E n d h this =
     Add (\<lambda>x. ConfigEntry_StringVar_ctor E x [] d (Some this)) n h this"

definition AddValueVar ::
  "emp \<Rightarrow> string \<Rightarrow> string \<Rightarrow> heap \<Rightarrow> addr \<Rightarrow> (addr \<times> heap) option" where
  "AddValueVar E n d h this =
     Add (\<lambda>x. ConfigEntry_DoubleVar_ctor E x 0 d (Some this)) n h this"

definition AddScope ::
  "emp \<Rightarrow> string \<Rightarrow> string \<Rightarrow> string \<Rightarrow> heap \<Rightarrow> addr \<Rightarrow> (addr \<times> heap) option" where
  "AddScope E n d ty h this =
     Add (\<lambda>x. ConfigScope_ctor E x d (Some this) ty) n h this"

text \<open>
  A run of declarations on one scope, each either \<open>Add\<close> or (flagged) \<open>AddBuiltin\<close>,
  returning the pointers in the order of declaration.
\<close>

fun declare_all ::
  "(bool \<times> string \<times> (string \<Rightarrow> entry)) list \<Rightarrow> heap \<Rightarrow> addr \<Rightarrow> (addr list \<times> heap) option" where
  "declare_all [] h this = Some ([], h)"
| "declare_all ((builtin, n, T) # ds) h this =
     (case (if builtin then AddBuiltin T n h this else Add T n h this) of
        None \<Rightarrow> None
      | Some (p, h1) \<Rightarrow>
          (case declare_all ds h1 this of
             None \<Rightarrow> None
           | Some (ps, h2) \<Rightarrow> Some (p # ps, h2)))"

text \<open>The chain of enclosing scopes of an object ends: every link is allocated.\<close>

inductive scope_chain :: "heap \<Rightarrow> addr \<Rightarrow> bool" for h :: heap where
  scope_chain_root: "objs h a = Some e \<Longrightarrow> scope e = None \<Longrightarrow> scope_chain h a"
| scope_chain_step:
    "objs h a = Some e \<Longrightarrow> scope e = Some q \<Longrightarrow> scope_chain h q \<Longrightarrow> scope_chain h a"

text \<open>An empty store, and the library parameters used to run the examples.\<close>

definition heap_empty :: heap where
  "heap_empty =
     \<lparr>objs = Map.empty, next_ptr = 0, double_vars = (\<lambda>_. 0), string_vars = (\<lambda>_. [])\<rparr>"

definition emp_example :: emp where
  "emp_example =
     \<lparr>to_string = (\<lambda>_. ''<double>''), from_string = (\<lambda>_. 0),
      Range_default = \<lparr>lower = 0, upper = 1\<rparr>, NDEBUG = False\<rparr>"

subsection \<open>Example stores\<close>

text \<open>A root scope A, the scope B declared in A, the scope C declared in B, and a variable x
  declared in A; and a scope in which x is declared twice.\<close>

definition chain_A :: "addr \<times> heap" where
  "chain_A = NewPtr (ConfigScope_ctor emp_example ''A'' [] None []) heap_empty"

definition chain_B :: "addr \<times> heap" where
  "chain_B = the (AddScope emp_example ''B'' [] [] (snd chain_A) (fst chain_A))"

definition chain_C :: "addr \<times> heap" where
  "chain_C = the (AddScope emp_example ''C'' [] [] (snd chain_B) (fst chain_B))"

definition chain_x :: "addr \<times> heap" where
  "chain_x = the (AddValueVar emp_example ''x'' [] (snd chain_C) (fst chain_A))"

definition twice_x1 :: "addr \<times> heap" where
  "twice_x1 = the (AddValueVar emp_example ''x'' [] (snd chain_A) (fst chain_A))"

definition twice_x2 :: "addr \<times> heap" where
  "twice_x2 = the (AddValueVar emp_example ''x'' [] (snd twice_x1) (fst chain_A))"

subsection \<open>The value of an entry\<close>

text \<open>
  The virtual accessors, by the class of \<open>this\<close>. A linked entry reads and writes the
  variable of the host; \<open>ConfigEntry_DoubleVar\<close> and \<open>ConfigEntry_StringVar\<close> read and
  write their own \<open>value\<close>; a ConfigScope inherits the asserting bodies of the base
  class. A call on an address that holds no object is \<open>Undefined\<close>.
\<close>

definition AsDouble :: "emp \<Rightarrow> heap \<Rightarrow> addr \<Rightarrow> double outcome" where
  "AsDouble E h this =
     (case objs h this of
        None \<Rightarrow> Undefined
      | Some e \<Rightarrow>
          (case derived e of
             ConfigEntry_Linked_double var \<Rightarrow> Returned (double_vars h var)
           | ConfigEntry_Linked_string var \<Rightarrow> Returned (from_string E (string_vars h var))
           | ConfigEntry_DoubleVar v \<Rightarrow> Returned v
           | ConfigEntry_StringVar v \<Rightarrow> Returned (from_string E v)
           | ConfigScope el bl em ty \<Rightarrow> emp_assert E False (Returned 0)))"

definition AsString :: "emp \<Rightarrow> heap \<Rightarrow> addr \<Rightarrow> string outcome" where
  "AsString E h this =
     (case objs h this of
        None \<Rightarrow> Undefined
      | Some e \<Rightarrow>
          (case derived e of
             ConfigEntry_Linked_double var \<Rightarrow> Returned (to_string E (double_vars h var))
           | ConfigEntry_Linked_string var \<Rightarrow> Returned (string_vars h var)
           | ConfigEntry_DoubleVar v \<Rightarrow> Returned (to_string E v)
           | ConfigEntry_StringVar v \<Rightarrow> Returned v
           | ConfigScope el bl em ty \<Rightarrow> emp_assert E False (Returned [])))"

definition SetValue :: "emp \<Rightarrow> heap \<Rightarrow> addr \<Rightarrow> double \<Rightarrow> heap outcome" where
  "SetValue E h this x =
     (case objs h this of
        None \<Rightarrow> Undefined
      | Some e \<Rightarrow>
          (case derived e of
             ConfigEntry_Linked_double var \<Rightarrow>
               Returned (h\<lparr>double_vars := (double_vars h)(var := x)\<rparr>)
           | ConfigEntry_Linked_string var \<Rightarrow>
               Returned (h\<lparr>string_vars := (string_vars h)(var := to_string E x)\<rparr>)
           | ConfigEntry_DoubleVar v \<Rightarrow>
               Returned (h\<lparr>objs := (objs h)(this \<mapsto> e\<lparr>derived := ConfigEntry_DoubleVar x\<rparr>)\<rparr>)
           | ConfigEntry_StringVar v \<Rightarrow>
               Returned (h\<lparr>objs := (objs h)(this \<mapsto>
                 e\<lparr>derived := ConfigEntry_StringVar (to_string E x)\<rparr>)\<rparr>)
           | ConfigScope el bl em ty \<Rightarrow> emp_assert E False (Returned h)))"

definition SetString :: "emp \<Rightarrow> heap \<Rightarrow> addr \<Rightarrow> string \<Rightarrow> heap outcome" where
  "SetString E h this x =
     (case objs h this of
        None \<Rightarrow> Undefined
      | Some e \<Rightarrow>
          (case derived e of
             ConfigEntry_Linked_double var \<Rightarrow>
               Returned (h\<lparr>double_vars := (double_vars h)(var := from_string E x)\<rparr>)
           | ConfigEntry_Linked_string var \<Rightarrow>
               Returned (h\<lparr>string_vars := (string_vars h)(var := x)\<rparr>)
           | ConfigEntry_DoubleVar v \<Rightarrow>
               Returned (h\<lparr>objs := (objs h)(this \<mapsto>
                 e\<lparr>derived := ConfigEntry_DoubleVar (from_string E x)\<rparr>)\<rparr>)
           | ConfigEntry_StringVar v \<Rightarrow>
               Returned (h\<lparr>objs := (objs h)(this \<mapsto> e\<lparr>derived := ConfigEntry_StringVar x\<rparr>)\<rparr>)
           | ConfigScope el bl em ty \<Rightarrow> emp_assert E False (Returned h)))"

text \<open>
  \<open>CopyValue\<close> assigns from the canonical form of another entry: its \<open>AsDouble\<close> for
  the numeric classes, its \<open>AsString\<close> for the string classes. The base class, and with
  it a ConfigScope, copies nothing and answers \<open>false\<close>.
\<close>

definition CopyValue :: "emp \<Rightarrow> heap \<Rightarrow> addr \<Rightarrow> addr \<Rightarrow> (bool \<times> heap) outcome" where
  "CopyValue E h this other =
     (case objs h this of
        None \<Rightarrow> Undefined
      | Some e \<Rightarrow>
          (case derived e of
             ConfigEntry_Linked_double var \<Rightarrow>
               (case AsDouble E h other of
                  Returned x \<Rightarrow> Returned (True, h\<lparr>double_vars := (double_vars h)(var := x)\<rparr>)
                | Aborted \<Rightarrow> Aborted
                | Undefined \<Rightarrow> Undefined)
           | ConfigEntry_Linked_string var \<Rightarrow>
               (case AsString E h other of
                  Returned x \<Rightarrow> Returned (True, h\<lparr>string_vars := (string_vars h)(var := x)\<rparr>)
                | Aborted \<Rightarrow> Aborted
                | Undefined \<Rightarrow> Undefined)
           | ConfigEntry_DoubleVar v \<Rightarrow>
               (case AsDouble E h other of
                  Returned x \<Rightarrow> Returned (True,
                    h\<lparr>objs := (objs h)(this \<mapsto> e\<lparr>derived := ConfigEntry_DoubleVar x\<rparr>)\<rparr>)
                | Aborted \<Rightarrow> Aborted
                | Undefined \<Rightarrow> Undefined)
           | ConfigEntry_StringVar v \<Rightarrow>
               (case AsString E h other of
                  Returned x \<Rightarrow> Returned (True,
                    h\<lparr>objs := (objs h)(this \<mapsto> e\<lparr>derived := ConfigEntry_StringVar x\<rparr>)\<rparr>)
                | Aborted \<Rightarrow> Aborted
                | Undefined \<Rightarrow> Undefined)
           | ConfigScope el bl em ty \<Rightarrow> Returned (False, h)))"

subsection \<open>Clone\<close>

text \<open>
  \<open>Clone\<close> is \<^verbatim>\<open>emp::NewPtr<this_t>(*this)\<close> in every class. For the classes with a
  defaulted copy constructor the new object is a member-wise copy, so the clone of a linked
  entry holds the same reference \<open>var\<close>. For a ConfigScope the address is allocated
  first; the copy constructor then copies the base class, clones the entries of
  \<open>entry_list\<close> and of \<open>builtin_list\<close> in turn and rebuilds \<open>entry_map\<close> under
  the names of the originals; it has no initialiser for the constant member \<open>type\<close>,
  which is therefore empty in the clone. The recursion follows pointers of the store and is
  bounded by a fuel argument: \<open>None\<close> means that the fuel ran out or that a pointer
  led to no object.
\<close>

fun Clone :: "nat \<Rightarrow> heap \<Rightarrow> addr \<Rightarrow> (addr \<times> heap) option"
  and Clone_entries ::
    "nat \<Rightarrow> heap \<Rightarrow> addr list \<Rightarrow> addr list \<Rightarrow> (string \<rightharpoonup> addr)
      \<Rightarrow> (addr list \<times> (string \<rightharpoonup> addr) \<times> heap) option" where
  "Clone 0 h x = None"
| "Clone (Suc k) h x =
     (case objs h x of
        None \<Rightarrow> None
      | Some e \<Rightarrow>
          (case derived e of
             ConfigScope el bl em ty \<Rightarrow>
               (case Clone_entries k (h\<lparr>next_ptr := Suc (next_ptr h)\<rparr>) el [] Map.empty of
                  None \<Rightarrow> None
                | Some (el', em1, h1) \<Rightarrow>
                    (case Clone_entries k h1 bl [] em1 of
                       None \<Rightarrow> None
                     | Some (bl', em2, h2) \<Rightarrow>
                         Some (next_ptr h,
                           h2\<lparr>objs := (objs h2)(next_ptr h \<mapsto>
                             e\<lparr>derived := ConfigScope el' bl' em2 []\<rparr>)\<rparr>)))
           | _ \<Rightarrow> Some (NewPtr e h)))"
| "Clone_entries k h [] list m = Some (list, m, h)"
| "Clone_entries k h (x # xs) list m =
     (case Clone k h x of
        None \<Rightarrow> None
      | Some (new_ptr, h1) \<Rightarrow>
          (case objs h1 x of
             None \<Rightarrow> None
           | Some ex \<Rightarrow> Clone_entries k h1 xs (list @ [new_ptr]) (m(name ex \<mapsto> new_ptr))))"

text \<open>The pointers a scope owns.\<close>

definition children :: "entry \<Rightarrow> addr list" where
  "children e = (case derived e of ConfigScope el bl em ty \<Rightarrow> el @ bl | _ \<Rightarrow> [])"

text \<open>
  The allocator's invariant: every allocated object, and every pointer a scope owns, lies
  below the next address to be handed out.
\<close>

definition heap_ok :: "heap \<Rightarrow> bool" where
  "heap_ok h \<longleftrightarrow>
     (\<forall>a e. objs h a = Some e \<longrightarrow> a < next_ptr h \<and> (\<forall>p\<in>set (children e). p < next_ptr h))"

text \<open>The entry at an address holds its own value (it is neither linked nor a scope).\<close>

definition holds_own_value :: "heap \<Rightarrow> addr \<Rightarrow> bool" where
  "holds_own_value h a =
     (case objs h a of
        None \<Rightarrow> False
      | Some e \<Rightarrow>
          (case derived e of
             ConfigEntry_DoubleVar v \<Rightarrow> True
           | ConfigEntry_StringVar v \<Rightarrow> True
           | _ \<Rightarrow> False))"

text \<open>
  The later store \<open>h'\<close> extends \<open>h\<close>: what was allocated is untouched, and so are
  the variables of the host.
\<close>

definition extends :: "heap \<Rightarrow> heap \<Rightarrow> bool" where
  "extends h h' \<longleftrightarrow>
     next_ptr h \<le> next_ptr h' \<and> (\<forall>a<next_ptr h. objs h' a = objs h a)
     \<and> double_vars h' = double_vars h \<and> string_vars h' = string_vars h"

text \<open>
  The object at \<open>c\<close> in \<open>h'\<close> is a copy of the object at \<open>x\<close> in \<open>h\<close>: the
  same base-class fields, the same class, and member for member the same object unless it
  is a scope.
\<close>

definition copy_of :: "heap \<Rightarrow> addr \<Rightarrow> heap \<Rightarrow> addr \<Rightarrow> bool" where
  "copy_of h x h' c \<longleftrightarrow>
     (\<exists>ex ec. objs h x = Some ex \<and> objs h' c = Some ec
        \<and> ConfigEntry.truncate ec = ConfigEntry.truncate ex
        \<and> (IsScope ex \<longrightarrow> IsScope ec) \<and> (\<not> IsScope ex \<longrightarrow> ec = ex))"

text \<open>
  The map the copy constructor builds: in the order of the lists, the name of each original
  entry is assigned the pointer to its copy, a later assignment replacing an earlier one.
\<close>

fun rebuilt_map :: "heap \<Rightarrow> addr list \<Rightarrow> addr list \<Rightarrow> (string \<rightharpoonup> addr) \<Rightarrow> (string \<rightharpoonup> addr)" where
  "rebuilt_map h (x # xs) (p # ps) m = rebuilt_map h xs ps (m(name (the (objs h x)) \<mapsto> p))"
| "rebuilt_map h [] ps m = m"
| "rebuilt_map h xs [] m = m"

text \<open>
  The object at \<open>c\<close> in \<open>h'\<close> is a deep copy of the object at \<open>x\<close> in \<open>h\<close>,
  within the given depth: \<open>c\<close> was not allocated in \<open>h\<close>; the copy of an entry that is
  not a scope is member for member the original; the copy of a scope has the base-class fields
  of the original, an empty \<open>type\<close>, lists of deep copies of the entries of the
  original's lists, and the map rebuilt from them.
\<close>

primrec deep_copy :: "nat \<Rightarrow> heap \<Rightarrow> heap \<Rightarrow> addr \<Rightarrow> addr \<Rightarrow> bool" where
  "deep_copy 0 h h' x c = False"
| "deep_copy (Suc k) h h' x c =
     (case objs h x of
        None \<Rightarrow> False
      | Some ex \<Rightarrow>
          objs h c = None \<and>
          (case derived ex of
             ConfigScope el bl em ty \<Rightarrow>
               (case objs h' c of
                  None \<Rightarrow> False
                | Some ec \<Rightarrow>
                    ConfigEntry.truncate ec = ConfigEntry.truncate ex \<and>
                    (case derived ec of
                       ConfigScope el' bl' em' ty' \<Rightarrow>
                         ty' = []
                         \<and> list_all2 (deep_copy k h h') el el'
                         \<and> list_all2 (deep_copy k h h') bl bl'
                         \<and> em' = rebuilt_map h (el @ bl) (el' @ bl') Map.empty
                     | _ \<Rightarrow> False))
           | _ \<Rightarrow> objs h' c = Some ex))"

text \<open>A scope with a linked variable, and its clone.\<close>

definition link_ex :: "addr \<times> heap" where
  "link_ex = the (LinkVar_double emp_example ''v'' 0 [] [] (snd chain_A) 0)"

definition clone_ex :: "addr \<times> heap" where
  "clone_ex = the (Clone 2 (snd link_ex) 0)"

subsection \<open>Write\<close>

text \<open>
  The stream is the text written so far; \<^verbatim>\<open>std::endl\<close> contributes a line feed.
  The loop \<^verbatim>\<open>while (char_count++ < comment_offset) os << " "\<close> writes
  \<open>comment_offset - char_count\<close> spaces, none when the count has reached the offset.
\<close>

definition endl :: string where
  "endl = [CHR 0x0A]"

definition pad :: "nat \<Rightarrow> nat \<Rightarrow> string" where
  "pad char_count comment_offset = replicate (comment_offset - char_count) (CHR '' '')"

text \<open>\<open>ConfigEntry::Write\<close>, which every class but ConfigScope inherits.\<close>

definition ConfigEntry_Write ::
  "emp \<Rightarrow> heap \<Rightarrow> addr \<Rightarrow> entry \<Rightarrow> string \<Rightarrow> string \<Rightarrow> nat \<Rightarrow> string option" where
  "ConfigEntry_Write E h this e os prefix comment_offset =
     (case (if default_val e \<noteq> [] then Returned (default_val e) else AsString E h this) of
        Returned str \<Rightarrow>
          Some (os @ prefix @ name e @ '' = '' @ str @ '';''
            @ (if desc e \<noteq> []
               then pad (length prefix + length (name e) + 3 + length str + 1) comment_offset
                 @ ''// '' @ desc e
               else [])
            @ endl)
      | Aborted \<Rightarrow> None
      | Undefined \<Rightarrow> None)"

text \<open>
  \<open>ConfigScope::Write\<close> and \<open>ConfigScope::WriteContents\<close>; \<open>Write\<close> is virtual.
  The recursion is bounded by fuel as for \<open>Clone\<close>.
\<close>

fun Write :: "nat \<Rightarrow> emp \<Rightarrow> heap \<Rightarrow> addr \<Rightarrow> string \<Rightarrow> string \<Rightarrow> nat \<Rightarrow> string option"
  and WriteContents ::
    "nat \<Rightarrow> emp \<Rightarrow> heap \<Rightarrow> addr list \<Rightarrow> string \<Rightarrow> string \<Rightarrow> nat \<Rightarrow> string option" where
  "Write 0 E h this os prefix comment_offset = None"
| "Write (Suc k) E h this os prefix comment_offset =
     (case objs h this of
        None \<Rightarrow> None
      | Some e \<Rightarrow>
          (case derived e of
             ConfigScope el bl em ty \<Rightarrow>
               (case WriteContents k E h el
                   (os @ prefix @ name e @ '' = { ''
                     @ (if desc e \<noteq> []
                        then pad (length prefix + length (name e) + 5) comment_offset
                          @ ''// '' @ desc e
                        else [])
                     @ endl)
                   (prefix @ ''  '') comment_offset of
                  None \<Rightarrow> None
                | Some os' \<Rightarrow> Some (os' @ prefix @ ''}'' @ endl))
           | _ \<Rightarrow> ConfigEntry_Write E h this e os prefix comment_offset))"
| "WriteContents k E h [] os prefix comment_offset = Some os"
| "WriteContents k E h (x # xs) os prefix comment_offset =
     (case Write k E h x os prefix comment_offset of
        None \<Rightarrow> None
      | Some os' \<Rightarrow> WriteContents k E h xs os' prefix comment_offset)"

text \<open>The variable x of the second example store with a description and a default text.\<close>

definition default_ex :: heap where
  "default_ex = (snd twice_x1)\<lparr>objs := (objs (snd twice_x1))
     (1 \<mapsto> SetDesc ''size'' (SetDefault ''7'' (the (objs (snd twice_x1) 1))))\<rparr>"

text \<open>
  Two objects agree on everything \<open>Write\<close> reads: the fields of the base class, the
  class, the value, and for a scope the declared entries.
\<close>

definition same_declared :: "entry \<Rightarrow> entry \<Rightarrow> bool" where
  "same_declared e e' \<longleftrightarrow>
     ConfigEntry.truncate e' = ConfigEntry.truncate e
     \<and> (case derived e of
          ConfigScope el bl em ty \<Rightarrow> (\<exists>bl' em' ty'. derived e' = ConfigScope el bl' em' ty')
        | d \<Rightarrow> derived e' = d)"

text \<open>The first example store with a built-in entry added to the root scope.\<close>

definition builtin_ex :: "addr \<times> heap" where
  "builtin_ex = the (AddBuiltin (\<lambda>n. ConfigEntry_DoubleVar_ctor emp_example n 3 ''circle'' (Some 0))
     ''pi'' (snd chain_x) 0)"

text \<open>The clone of the root scope of the first example store.\<close>

definition clone_chain :: "addr \<times> heap" where
  "clone_chain = the (Clone 3 (snd chain_x) 0)"

subsection \<open>Temporary symbols and the function adapter\<close>

text \<open>
  In \<^verbatim>\<open>EmplodeTools.hpp\<close> a \<^verbatim>\<open>symbol_ptr_t\<close> is a pointer that may be null and
  a \<^verbatim>\<open>symbol_vector_t\<close> a vector of them. The template parameter \<^verbatim>\<open>VALUE_T\<close> of
  \<open>MakeTempSymbol\<close> ranges over \<^verbatim>\<open>std::string\<close> and the arithmetic types; an
  arithmetic value is represented by the number it holds.
\<close>

type_synonym symbol_ptr_t = "addr option"
type_synonym symbol_vector_t = "symbol_ptr_t list"

datatype VALUE_T = V_arithmetic double | V_string string

text \<open>
  Modelled from the spec: \<^verbatim>\<open>Symbol\<close> and \<^verbatim>\<open>Symbol_Var<VALUE_T>\<close> are declared in
  \<^verbatim>\<open>Symbol.hpp\<close>, which is missing. By the spec a Symbol has the attributes of the
  ConfigEntry above, and the owned primitive variable holds its own double or text; the
  constructor takes the name, the value, the description and the owning scope, as the
  constructors of \<open>ConfigEntry_DoubleVar\<close> and \<open>ConfigEntry_StringVar\<close> do.
\<close>

definition Symbol_Var_ctor ::
  "emp \<Rightarrow> string \<Rightarrow> VALUE_T \<Rightarrow> string \<Rightarrow> addr option \<Rightarrow> entry" where
  "Symbol_Var_ctor E n v d s =
     (case v of
        V_arithmetic x \<Rightarrow> ConfigEntry_DoubleVar_ctor E n x d s
      | V_string x \<Rightarrow> ConfigEntry_StringVar_ctor E n x d s)"

definition MakeTempSymbol :: "emp \<Rightarrow> VALUE_T \<Rightarrow> heap \<Rightarrow> addr \<times> heap" where
  "MakeTempSymbol E v h =
     (case NewPtr (Symbol_Var_ctor E ''__Temp'' v [] None) h of
        (out_symbol, h1) \<Rightarrow>
          (out_symbol,
           h1\<lparr>objs := (objs h1)(out_symbol := map_option (SetTemporary True) (objs h1 out_symbol))\<rparr>))"

text \<open>
  The value a native function returns, tagged with its static type \<^verbatim>\<open>RETURN_T\<close>: a
  symbol pointer, a string, an arithmetic value, or a value of any other type.
  \<open>ConvertReturn\<close> chooses its branch by \<^verbatim>\<open>if constexpr\<close> on the type; the last
  branch is a \<^verbatim>\<open>static_assert\<close> that fails, so that instantiation does not compile,
  which is the result \<open>Inl\<close>.
\<close>

datatype return_value =
    R_symbol_ptr symbol_ptr_t
  | R_string string
  | R_arithmetic double
  | R_other

datatype static_error = Static_assert string

definition ConvertReturn ::
  "emp \<Rightarrow> return_value \<Rightarrow> heap \<Rightarrow> static_error + (symbol_ptr_t \<times> heap)" where
  "ConvertReturn E return_value h =
     (case return_value of
        R_symbol_ptr p \<Rightarrow> Inr (p, h)
      | R_string s \<Rightarrow>
          (case MakeTempSymbol E (V_string s) h of (p, h') \<Rightarrow> Inr (Some p, h'))
      | R_arithmetic x \<Rightarrow>
          (case MakeTempSymbol E (V_arithmetic x) h of (p, h') \<Rightarrow> Inr (Some p, h'))
      | R_other \<Rightarrow>
          Inl (Static_assert ''Invalid return value in Symbol_Function::SetFunction()''))"

text \<open>
  A native function \<^verbatim>\<open>RETURN_T(PARAM_Ts...)\<close>: either its parameters are values (of
  arithmetic type or strings), and it is given by its parameter types and its result on
  the converted arguments, or its only parameter is \<^verbatim>\<open>const symbol_vector_t &\<close> and it
  receives the argument list itself.
\<close>

datatype PARAM_T = P_arithmetic | P_string

datatype arg_value = A_arithmetic double | A_string string

datatype FUN_T =
    Fun_values "PARAM_T list" "arg_value list \<Rightarrow> return_value"
  | Fun_symbols "heap \<Rightarrow> symbol_vector_t \<Rightarrow> return_value"

definition bind_outcome :: "'a outcome \<Rightarrow> ('a \<Rightarrow> 'b outcome) \<Rightarrow> 'b outcome" where
  "bind_outcome r f =
     (case r of Returned x \<Rightarrow> f x | Aborted \<Rightarrow> Aborted | Undefined \<Rightarrow> Undefined)"

text \<open>
  \<^verbatim>\<open>args[i]\<close> on an \<^verbatim>\<open>emp::vector\<close>: out of range it fails an assertion, and is
  undefined when assertions are compiled out.
\<close>

definition vector_at :: "emp \<Rightarrow> 'a list \<Rightarrow> nat \<Rightarrow> 'a outcome" where
  "vector_at E xs i =
     (if i < length xs then Returned (xs ! i) else emp_assert E False Undefined)"

text \<open>
  Modelled from the spec: \<^verbatim>\<open>Symbol::As<T>()\<close> is declared in the missing
  \<^verbatim>\<open>Symbol.hpp\<close>. By the spec it converts the Symbol into the primitive type required,
  through the canonical numeric or text form, and fails by assertion if the Symbol cannot
  supply it. Calling it through a null pointer is undefined.
\<close>

definition As :: "emp \<Rightarrow> heap \<Rightarrow> PARAM_T \<Rightarrow> symbol_ptr_t \<Rightarrow> arg_value outcome" where
  "As E h T p =
     (case p of
        None \<Rightarrow> Undefined
      | Some a \<Rightarrow>
          (case T of
             P_arithmetic \<Rightarrow> bind_outcome (AsDouble E h a) (\<lambda>x. Returned (A_arithmetic x))
           | P_string \<Rightarrow> bind_outcome (AsString E h a) (\<lambda>x. Returned (A_string x))))"

text \<open>The pack expansion \<^verbatim>\<open>args[0]->As<PARAM1_T>(), args[INDEX_VALS+1]->As<PARAM_Ts>()...\<close>.\<close>

fun convert_args ::
  "emp \<Rightarrow> heap \<Rightarrow> PARAM_T list \<Rightarrow> symbol_vector_t \<Rightarrow> nat \<Rightarrow> arg_value list outcome" where
  "convert_args E h [] args i = Returned []"
| "convert_args E h (T # Ts) args i =
     bind_outcome (vector_at E args i) (\<lambda>p.
     bind_outcome (As E h T p) (\<lambda>v.
     bind_outcome (convert_args E h Ts args (Suc i)) (\<lambda>vs. Returned (v # vs))))"

text \<open>Decimal output of a \<^verbatim>\<open>size_t\<close>, as \<^verbatim>\<open>operator<<\<close> prints it.\<close>

definition digit_char :: "nat \<Rightarrow> char" where
  "digit_char d = ''0123456789'' ! d"

function string_of_nat :: "nat \<Rightarrow> string" where
  "string_of_nat n =
     (if n < 10 then [digit_char n] else string_of_nat (n div 10) @ [digit_char (n mod 10)])"
  by pat_completeness auto
termination
  by (relation "measure id") auto

definition arity_message :: "string \<Rightarrow> nat \<Rightarrow> nat \<Rightarrow> string" where
  "arity_message n expected received =
     ''Error in call to function '' @ [CHR 0x27] @ n @ [CHR 0x27] @ ''; expected ''
       @ string_of_nat expected @ '' arguments, but received '' @ string_of_nat received
       @ ''.'' @ endl"

text \<open>
  \<open>WrapFunction name fun\<close> is the closure that \<open>ConvertFun\<close> builds; applied to the
  argument list it runs in a store and with the text written to \<^verbatim>\<open>std::cerr\<close> so far.
  The three cases are the specialisation for no parameters, the pass-through of the
  argument list, and the conversion by position. The result \<open>Inl\<close> is a wrapper that
  does not compile; otherwise the call returns a pointer and the new store, aborts or is
  undefined, and leaves the error text.
\<close>

definition WrapFunction ::
  "emp \<Rightarrow> string \<Rightarrow> FUN_T \<Rightarrow> symbol_vector_t \<Rightarrow> heap \<Rightarrow> string
     \<Rightarrow> static_error + ((symbol_ptr_t \<times> heap) outcome \<times> string)" where
  "WrapFunction E n f args h cerr =
     (case f of
        Fun_values [] g \<Rightarrow>
          (case emp_assert E (length args = 0) (Returned (g [])) of
             Returned r \<Rightarrow>
               (case ConvertReturn E r h of
                  Inl err \<Rightarrow> Inl err
                | Inr res \<Rightarrow> Inr (Returned res, cerr))
           | Aborted \<Rightarrow> Inr (Aborted, cerr)
           | Undefined \<Rightarrow> Inr (Undefined, cerr))
      | Fun_symbols g \<Rightarrow>
          (case ConvertReturn E (g h args) h of
             Inl err \<Rightarrow> Inl err
           | Inr res \<Rightarrow> Inr (Returned res, cerr))
      | Fun_values (T # Ts) g \<Rightarrow>
          (let NUM_PARAMS = 1 + length Ts;
               cerr1 = (if length args \<noteq> NUM_PARAMS
                        then cerr @ arity_message n NUM_PARAMS (length args) else cerr)
           in case convert_args E h (T # Ts) args 0 of
                Returned vs \<Rightarrow>
                  (case ConvertReturn E (g vs) h of
                     Inl err \<Rightarrow> Inl err
                   | Inr res \<Rightarrow> Inr (Returned res, cerr1))
              | Aborted \<Rightarrow> Inr (Aborted, cerr1)
              | Undefined \<Rightarrow> Inr (Undefined, cerr1)))"

text \<open>
  No pointer stored in an object (the enclosing scope of an entry, an entry of a lookup
  table) reaches the next address to be handed out or beyond.
\<close>

definition pointers_ok :: "heap \<Rightarrow> bool" where
  "pointers_ok h \<longleftrightarrow>
     (\<forall>a e. objs h a = Some e \<longrightarrow>
        (\<forall>q. scope e = Some q \<longrightarrow> q < next_ptr h)
        \<and> (\<forall>el bl em ty n x. derived e = ConfigScope el bl em ty \<and> em n = Some x
              \<longrightarrow> x < next_ptr h))"

text \<open>The native function of the example, \<^verbatim>\<open>add(a,b) = a+b\<close>, and two temporaries.\<close>

definition add :: FUN_T where
  "add = Fun_values [P_arithmetic, P_arithmetic]
     (\<lambda>vs. case vs of
        [A_arithmetic a, A_arithmetic b] \<Rightarrow> R_arithmetic (a + b)
      | _ \<Rightarrow> R_other)"

definition two_three :: heap where
  "two_three = snd (MakeTempSymbol emp_example (V_arithmetic 3)
     (snd (MakeTempSymbol emp_example (V_arithmetic 2) heap_empty)))"

definition zero_args :: FUN_T where
  "zero_args = Fun_values [] (\<lambda>vs. R_arithmetic 1)"

text \<open>
  The call has returned, leaving the error text \<open>cerr\<close>, a symbol for the value
  \<open>rv\<close> of the native function: the pointer itself if \<open>rv\<close> is a symbol pointer,
  else a symbol whose \<open>AsString\<close> or \<open>AsDouble\<close> is \<open>rv\<close>. (A function of any other
  return type has no wrapper.)
\<close>

definition returns_symbol_for ::
  "emp \<Rightarrow> return_value \<Rightarrow> heap \<Rightarrow> string
     \<Rightarrow> static_error + ((symbol_ptr_t \<times> heap) outcome \<times> string) \<Rightarrow> bool" where
  "returns_symbol_for E rv h cerr res =
     (case rv of
        R_symbol_ptr q \<Rightarrow> res = Inr (Returned (q, h), cerr)
      | R_string s \<Rightarrow>
          (\<exists>p h'. res = Inr (Returned (Some p, h'), cerr) \<and> AsString E h' p = Returned s)
      | R_arithmetic x \<Rightarrow>
          (\<exists>p h'. res = Inr (Returned (Some p, h'), cerr) \<and> AsDouble E h' p = Returned x)
      | R_other \<Rightarrow> (\<exists>err. res = Inl err))"

text \<open>
  The objects reachable from an address through the pointers that scopes own are allocated
  and form a tree of depth at most \<open>k\<close>: the bound that makes the recursions below return.
\<close>

fun within_depth :: "nat \<Rightarrow> heap \<Rightarrow> addr \<Rightarrow> bool" where
  "within_depth 0 h a = False"
| "within_depth (Suc k) h a =
     (case objs h a of
        None \<Rightarrow> False
      | Some e \<Rightarrow>
          (case derived e of
             ConfigScope el bl em ty \<Rightarrow> (\<forall>c\<in>set (el @ bl). within_depth k h c)
           | _ \<Rightarrow> True))"

subsection \<open>Parent pointers\<close>

text \<open>
  Every pointer a scope owns leads to an object whose \<open>scope\<close> member points back to
  that scope. The declarations establish this, since each passes \<^verbatim>\<open>this\<close> to the
  constructor of the new entry.
\<close>

definition parents_ok :: "heap \<Rightarrow> bool" where
  "parents_ok h \<longleftrightarrow>
     (\<forall>a e. objs h a = Some e \<longrightarrow>
        (\<forall>p\<in>set (children e). \<exists>ep. objs h p = Some ep \<and> scope ep = Some a))"

text \<open>The clone of the chain A, B, C, and a variable x declared in the clone of A.\<close>

definition cloned_chain :: "addr \<times> heap" where
  "cloned_chain = the (Clone 3 (snd chain_C) 0)"

definition cloned_chain_x :: "addr \<times> heap" where
  "cloned_chain_x = the (AddValueVar emp_example ''x'' [] (snd cloned_chain) (fst cloned_chain))"

subsection \<open>The function adapter: member functions\<close>

text \<open>
  Modelled from the spec: \<^verbatim>\<open>EmplodeType\<close> is declared in \<^verbatim>\<open>EmplodeType.hpp\<close>, which
  is missing. By the spec the bound object of a member function is an object of a capability
  type, and the wrapper checks at the call that the object can be cast to the type the
  function was registered against. An object is represented by the classes its dynamic type
  is or derives from, and by a state for the native function to read. A class is identified
  by its \<^verbatim>\<open>emp::TypeID\<close>; \<open>DynamicCast\<close> is null unless the object is of the class.
\<close>

type_synonym TypeID = string

record EmplodeType =
  type_ids :: "TypeID list"
  state :: double

definition DynamicCast :: "EmplodeType \<Rightarrow> TypeID \<Rightarrow> EmplodeType option" where
  "DynamicCast obj T = (if T \<in> set (type_ids obj) then Some obj else None)"

text \<open>
  A native member function \<^verbatim>\<open>RETURN_T(PARAM1_T, PARAM_Ts...)\<close>, whose first parameter
  is a reference to an object of the class given: either its other parameters are values,
  or its only other parameter is \<^verbatim>\<open>const symbol_vector_t &\<close>.
\<close>

datatype MEMBER_FUN_T =
    Member_values TypeID "PARAM_T list" "EmplodeType \<Rightarrow> arg_value list \<Rightarrow> return_value"
  | Member_symbols TypeID "EmplodeType \<Rightarrow> heap \<Rightarrow> symbol_vector_t \<Rightarrow> return_value"

fun object_t :: "MEMBER_FUN_T \<Rightarrow> TypeID" where
  "object_t (Member_values T Ts g) = T"
| "object_t (Member_symbols T g) = T"

definition zero_arity_message :: "string \<Rightarrow> nat \<Rightarrow> string" where
  "zero_arity_message n received =
     ''Error in call to function '' @ [CHR 0x27] @ n @ [CHR 0x27]
       @ ''; expected ZERO arguments, but received '' @ string_of_nat received
       @ ''.'' @ endl"

text \<open>\<^verbatim>\<open>*typed_ptr\<close>: undefined through a null pointer.\<close>

definition deref :: "'a option \<Rightarrow> 'a outcome" where
  "deref p = (case p of None \<Rightarrow> Undefined | Some x \<Rightarrow> Returned x)"

text \<open>
  The closure that \<open>ConvertMemberFun\<close> builds, applied to the object and the argument
  list: the cast of the object is asserted; then the three cases are the member function
  without further parameters, which reports a non-empty argument list and goes on, the
  pass-through of the argument list, and the conversion by position.
\<close>

definition ConvertMemberFun ::
  "emp \<Rightarrow> string \<Rightarrow> MEMBER_FUN_T \<Rightarrow> EmplodeType \<Rightarrow> symbol_vector_t \<Rightarrow> heap \<Rightarrow> string
     \<Rightarrow> static_error + ((symbol_ptr_t \<times> heap) outcome \<times> string)" where
  "ConvertMemberFun E n f obj args h cerr =
     (let typed_ptr = DynamicCast obj (object_t f)
      in case emp_assert E (typed_ptr \<noteq> None) (Returned ()) of
           Aborted \<Rightarrow> Inr (Aborted, cerr)
         | Undefined \<Rightarrow> Inr (Undefined, cerr)
         | Returned u \<Rightarrow>
             (case f of
                Member_values T [] g \<Rightarrow>
                  (let cerr1 = (if length args \<noteq> 0
                                then cerr @ zero_arity_message n (length args) else cerr)
                   in case deref typed_ptr of
                        Returned t \<Rightarrow>
                          (case ConvertReturn E (g t []) h of
                             Inl err \<Rightarrow> Inl err
                           | Inr res \<Rightarrow> Inr (Returned res, cerr1))
                      | Aborted \<Rightarrow> Inr (Aborted, cerr1)
                      | Undefined \<Rightarrow> Inr (Undefined, cerr1))
              | Member_symbols T g \<Rightarrow>
                  (case deref typed_ptr of
                     Returned t \<Rightarrow>
                       (case ConvertReturn E (g t h args) h of
                          Inl err \<Rightarrow> Inl err
                        | Inr res \<Rightarrow> Inr (Returned res, cerr))
                   | Aborted \<Rightarrow> Inr (Aborted, cerr)
                   | Undefined \<Rightarrow> Inr (Undefined, cerr))
              | Member_values T (P # Ps) g \<Rightarrow>
                  (let NUM_PARAMS = length (P # Ps);
                       cerr1 = (if length args \<noteq> NUM_PARAMS
                                then cerr @ arity_message n NUM_PARAMS (length args) else cerr)
                   in case bind_outcome (deref typed_ptr) (\<lambda>t.
                           bind_outcome (convert_args E h (P # Ps) args 0) (\<lambda>vs.
                           Returned (g t vs))) of
                        Returned r \<Rightarrow>
                          (case ConvertReturn E r h of
                             Inl err \<Rightarrow> Inl err
                           | Inr res \<Rightarrow> Inr (Returned res, cerr1))
                      | Aborted \<Rightarrow> Inr (Aborted, cerr1)
                      | Undefined \<Rightarrow> Inr (Undefined, cerr1))))"

text \<open>
  \<open>WrapMemberFunction class_type name fun\<close> asserts that the class of the first
  parameter of \<open>fun\<close> is \<open>class_type\<close> and returns the closure of
  \<open>ConvertMemberFun\<close>.
\<close>

definition WrapMemberFunction ::
  "emp \<Rightarrow> TypeID \<Rightarrow> string \<Rightarrow> MEMBER_FUN_T \<Rightarrow> EmplodeType \<Rightarrow> symbol_vector_t \<Rightarrow> heap \<Rightarrow> string
     \<Rightarrow> static_error + ((symbol_ptr_t \<times> heap) outcome \<times> string)" where
  "WrapMemberFunction E class_type n f obj args h cerr =
     (case emp_assert E (class_type = object_t f) (Returned ()) of
        Aborted \<Rightarrow> Inr (Aborted, cerr)
      | Undefined \<Rightarrow> Inr (Undefined, cerr)
      | Returned u \<Rightarrow> ConvertMemberFun E n f obj args h cerr)"

text \<open>
  An object of class \<^verbatim>\<open>Counter\<close>, and two member functions of that class: one without
  further parameters that returns the state, one that adds a number to it.
\<close>

definition counter :: EmplodeType where
  "counter = \<lparr>type_ids = [''Counter'', ''EmplodeType''], state = 7\<rparr>"

definition get_state :: MEMBER_FUN_T where
  "get_state = Member_values ''Counter'' [] (\<lambda>obj vs. R_arithmetic (state obj))"


section \<open>Properties\<close>

lemma apply_operation_upper:
  "apply_operation E x e = Returned e' \<Longrightarrow> upper (range_c e') = upper (range_c e)"
  by (cases x)
     (auto simp: SetName_def SetDesc_def SetDefault_def SetTemporary_def SetMin_def
        SetMax_def SetLower_def ConfigEntry_SetValue_def ConfigEntry_SetString_def
        ConfigEntry_CopyValue_def ConfigEntry_UpdateDefault_def emp_assert_def
        split: if_splits)

lemma SetValue_keeps_range:
  "SetValue E h a x = Returned h' \<Longrightarrow> map_option range_c (objs h' b) = map_option range_c (objs h b)"
  by (auto simp: SetValue_def emp_assert_def split: option.splits derived.splits if_splits)

lemma SetString_keeps_range:
  "SetString E h a x = Returned h' \<Longrightarrow> map_option range_c (objs h' b) = map_option range_c (objs h b)"
  by (auto simp: SetString_def emp_assert_def split: option.splits derived.splits if_splits)

lemma CopyValue_keeps_range:
  "CopyValue E h a other = Returned (r, h')
   \<Longrightarrow> map_option range_c (objs h' b) = map_option range_c (objs h b)"
  by (auto simp: CopyValue_def split: option.splits derived.splits outcome.splits)

text \<open>
  C10. \<open>SetMax m\<close> stores \<open>m\<close> in the lower bound of the entry's range (through
  \<open>SetLower\<close>) and leaves the upper bound as it was; and whatever sequence of
  ConfigEntry operations runs to completion, the upper bound of the range is the one the
  entry started with, so a maximum is never recorded. The overriding \<open>SetValue\<close>,
  \<open>SetString\<close> and \<open>CopyValue\<close> of the derived classes leave the range of every
  object as it is.
\<close>

theorem SetMax_sets_lower_bound:
  "lower (range_c (SetMax m e)) = m
   \<and> upper (range_c (SetMax m e)) = upper (range_c e)
   \<and> range_c (SetMax m e) = SetLower m (range_c e)
   \<and> (\<forall>ops e'. apply_operations E ops e = Returned e'
         \<longrightarrow> upper (range_c e') = upper (range_c e))
   \<and> (\<forall>h a b x s other r h'.
         SetValue E h a x = Returned h' \<or> SetString E h a s = Returned h'
         \<or> CopyValue E h a other = Returned (r, h')
         \<longrightarrow> map_option range_c (objs h' b) = map_option range_c (objs h b))"
proof -
  have seq: "apply_operations E ops e0 = Returned e'
      \<Longrightarrow> upper (range_c e') = upper (range_c e0)" for ops e0 e'
  proof (induction ops arbitrary: e0)
    case Nil
    then show ?case by simp
  next
    case (Cons x xs)
    then obtain e1 where s: "apply_operation E x e0 = Returned e1"
      and r: "apply_operations E xs e1 = Returned e'"
      by (auto split: outcome.splits)
    from Cons.IH [OF r] apply_operation_upper [OF s] show ?case by simp
  qed
  have store: "map_option range_c (objs h' b) = map_option range_c (objs h b)"
    if "SetValue E h a x = Returned h' \<or> SetString E h a s = Returned h'
         \<or> CopyValue E h a other = Returned (r, h')" for h a b x s other r h'
    using that SetValue_keeps_range SetString_keeps_range CopyValue_keeps_range by blast
  have "lower (range_c (SetMax m e)) = m"
    and "upper (range_c (SetMax m e)) = upper (range_c e)"
    and "range_c (SetMax m e) = SetLower m (range_c e)"
    by (simp_all add: SetMax_def SetLower_def)
  with seq store show ?thesis by blast
qed

theorem SetMax_sets_lower_bound_witness:
  "apply_operations emp_example [Op_SetMin 2, Op_SetMax 7]
       (ConfigEntry_ctor emp_example ''x'' [] None)
     = Returned ((ConfigEntry_ctor emp_example ''x'' [] None)
         \<lparr>range_c := \<lparr>lower = 7, upper = 1\<rparr>\<rparr>)
   \<and> upper (range_c ((ConfigEntry_ctor emp_example ''x'' [] None)
         \<lparr>range_c := \<lparr>lower = 7, upper = 1\<rparr>\<rparr>))
       = upper (range_c (ConfigEntry_ctor emp_example ''x'' [] None))
   \<and> SetValue emp_example (snd twice_x1) 1 5
       = Returned ((snd twice_x1)\<lparr>objs := (objs (snd twice_x1))(1 \<mapsto>
           ConfigEntry_DoubleVar_ctor emp_example ''x'' 5 [] (Some 0))\<rparr>)
   \<and> map_option range_c (objs ((snd twice_x1)\<lparr>objs := (objs (snd twice_x1))(1 \<mapsto>
           ConfigEntry_DoubleVar_ctor emp_example ''x'' 5 [] (Some 0))\<rparr>) 1)
       = map_option range_c (objs (snd twice_x1) 1)"
proof -
  let ?e = "ConfigEntry_ctor emp_example ''x'' [] None"
  let ?e' = "?e\<lparr>range_c := \<lparr>lower = 7, upper = 1\<rparr>\<rparr>"
  let ?h = "snd twice_x1"
  let ?h' = "?h\<lparr>objs := (objs ?h)(1 \<mapsto>
           ConfigEntry_DoubleVar_ctor emp_example ''x'' 5 [] (Some 0))\<rparr>"
  note t = SetMax_sets_lower_bound [of 7 ?e emp_example]
  have run: "apply_operations emp_example [Op_SetMin 2, Op_SetMax 7] ?e = Returned ?e'"
    by (simp add: ConfigEntry_ctor_def SetMin_def SetMax_def SetLower_def emp_example_def)
  from t [THEN conjunct2, THEN conjunct2, THEN conjunct2, THEN conjunct1, rule_format, OF run]
  have up: "upper (range_c ?e') = upper (range_c ?e)" .
  have sv: "SetValue emp_example ?h 1 5 = Returned ?h'"
    by (simp add: SetValue_def chain_A_def twice_x1_def NewPtr_def Add_def AddValueVar_def
        heap_empty_def ConfigEntry_ctor_def ConfigScope_ctor_def ConfigEntry_DoubleVar_ctor_def
        ConfigEntry.extend_def)
  from t [THEN conjunct2, THEN conjunct2, THEN conjunct2, THEN conjunct2, rule_format,
      where h = ?h and a = 1 and x = 5 and h' = ?h' and b = 1] sv
  have "map_option range_c (objs ?h' 1) = map_option range_c (objs ?h 1)" by blast
  with run up sv show ?thesis by blast
qed

subsection \<open>Lookup\<close>

lemma LookupEntry_found:
  "objs h s = Some e \<Longrightarrow> derived e = ConfigScope el bl em ty \<Longrightarrow> em n = Some p
   \<Longrightarrow> LookupEntry h s n b = Some (Some p)"
  by (subst LookupEntry.simps) simp

lemma LookupEntry_parent:
  "objs h s = Some e \<Longrightarrow> derived e = ConfigScope el bl em ty \<Longrightarrow> em n = None
   \<Longrightarrow> scope e = Some q
   \<Longrightarrow> LookupEntry h s n True = LookupEntry h q n True"
  by (subst LookupEntry.simps) simp

lemma LookupEntry_absent:
  "objs h s = Some e \<Longrightarrow> derived e = ConfigScope el bl em ty \<Longrightarrow> em n = None
   \<Longrightarrow> scope e = None \<or> \<not> b
   \<Longrightarrow> LookupEntry h s n b = Some None"
  by (subst LookupEntry.simps) (auto split: option.splits)

lemma LookupEntry_other:
  "objs h s = Some e \<Longrightarrow> \<not> IsScope e
   \<Longrightarrow> LookupEntry h s n b = Some (if n = [] then Some s else None)"
  by (subst LookupEntry.simps) (simp add: IsScope_def split: derived.splits)

lemma LookupEntry_total:
  "scope_chain h s \<Longrightarrow> \<exists>r. LookupEntry h s n b = Some r"
proof (induction arbitrary: b rule: scope_chain.induct)
  case (scope_chain_root a e)
  show ?case
  proof (cases "derived e")
    case (ConfigScope el bl em ty)
    show ?thesis
    proof (cases "em n")
      case None
      with scope_chain_root ConfigScope show ?thesis
        by (simp add: LookupEntry_absent)
    next
      case (Some p)
      with scope_chain_root ConfigScope show ?thesis
        by (simp add: LookupEntry_found)
    qed
  qed (use scope_chain_root in \<open>simp_all add: LookupEntry_other IsScope_def\<close>)
next
  case (scope_chain_step a e q)
  from scope_chain_step.IH [of True] obtain r where r: "LookupEntry h q n True = Some r"
    by blast
  show ?case
  proof (cases "derived e")
    case (ConfigScope el bl em ty)
    show ?thesis
    proof (cases "em n")
      case None
      show ?thesis
      proof (cases b)
        case True
        with scope_chain_step.hyps ConfigScope None r show ?thesis
          by (simp add: LookupEntry_parent)
      next
        case False
        with scope_chain_step.hyps ConfigScope None show ?thesis
          by (simp add: LookupEntry_absent)
      qed
    next
      case (Some p)
      with scope_chain_step.hyps ConfigScope show ?thesis
        by (simp add: LookupEntry_found)
    qed
  qed (use scope_chain_step.hyps in \<open>simp_all add: LookupEntry_other IsScope_def\<close>)
qed

lemma LookupEntry_local:
  "objs h s = Some e \<Longrightarrow> IsScope e
   \<Longrightarrow> LookupEntry h s n False = Some (entry_map (derived e) n)"
  by (subst LookupEntry.simps) (auto simp: IsScope_def split: derived.splits option.splits)

lemma declare_step:
  assumes "objs h this = Some e" "IsScope e" "this < next_ptr h"
  shows "\<exists>h' e'. (if builtin then AddBuiltin T n h this else Add T n h this) = Some (next_ptr h, h')
     \<and> next_ptr h' = Suc (next_ptr h)
     \<and> objs h' this = Some e' \<and> IsScope e'
     \<and> entry_map (derived e') = (entry_map (derived e))(n \<mapsto> next_ptr h)
     \<and> entry_list (derived e') = entry_list (derived e) @ (if builtin then [] else [next_ptr h])
     \<and> builtin_list (derived e') = builtin_list (derived e) @ (if builtin then [next_ptr h] else [])
     \<and> objs h' (next_ptr h) = Some (T n)
     \<and> (\<forall>a. a \<noteq> this \<longrightarrow> a \<noteq> next_ptr h \<longrightarrow> objs h' a = objs h a)"
  using assms
  by (cases "derived e")
     (auto simp: Add_def AddBuiltin_def NewPtr_def IsScope_def)


lemma declare_all_resolves:
  assumes "objs h this = Some e" "IsScope e" "this < next_ptr h"
    and "distinct (map (\<lambda>d. fst (snd d)) ds)"
  shows "\<exists>ps h' e'. declare_all ds h this = Some (ps, h')
     \<and> length ps = length ds
     \<and> objs h' this = Some e' \<and> IsScope e'
     \<and> next_ptr h \<le> next_ptr h'
     \<and> (\<forall>i<length ds. entry_map (derived e') (fst (snd (ds ! i))) = Some (ps ! i)
           \<and> objs h' (ps ! i) = Some (snd (snd (ds ! i)) (fst (snd (ds ! i))))
           \<and> next_ptr h \<le> ps ! i)
     \<and> (\<forall>n. n \<notin> set (map (\<lambda>d. fst (snd d)) ds)
           \<longrightarrow> entry_map (derived e') n = entry_map (derived e) n)
     \<and> (\<forall>a<next_ptr h. a \<noteq> this \<longrightarrow> objs h' a = objs h a)"
  using assms
proof (induction ds arbitrary: h e)
  case Nil
  then show ?case by simp
next
  case (Cons d ds)
  obtain builtin n T where d: "d = (builtin, n, T)" by (cases d)
  from declare_step [OF Cons.prems(1-3), of builtin T n]
  obtain h1 e1 where
    s: "(if builtin then AddBuiltin T n h this else Add T n h this) = Some (next_ptr h, h1)"
    and nx: "next_ptr h1 = Suc (next_ptr h)"
    and o1: "objs h1 this = Some e1" and sc1: "IsScope e1"
    and em1: "entry_map (derived e1) = (entry_map (derived e))(n \<mapsto> next_ptr h)"
    and new1: "objs h1 (next_ptr h) = Some (T n)"
    and fr1: "\<forall>a. a \<noteq> this \<longrightarrow> a \<noteq> next_ptr h \<longrightarrow> objs h1 a = objs h a"
    by blast
  from Cons.prems(3) nx have lt1: "this < next_ptr h1" by simp
  from Cons.prems(4) d have dist: "distinct (map (\<lambda>d. fst (snd d)) ds)"
    and fresh: "n \<notin> set (map (\<lambda>d. fst (snd d)) ds)" by simp_all
  from Cons.IH [OF o1 sc1 lt1 dist]
  obtain ps h' e' where
    r: "declare_all ds h1 this = Some (ps, h')"
    and len: "length ps = length ds"
    and o': "objs h' this = Some e'" and sc': "IsScope e'"
    and nx': "next_ptr h1 \<le> next_ptr h'"
    and each: "\<forall>i<length ds. entry_map (derived e') (fst (snd (ds ! i))) = Some (ps ! i)
           \<and> objs h' (ps ! i) = Some (snd (snd (ds ! i)) (fst (snd (ds ! i))))
           \<and> next_ptr h1 \<le> ps ! i"
    and others: "\<forall>m. m \<notin> set (map (\<lambda>d. fst (snd d)) ds)
           \<longrightarrow> entry_map (derived e') m = entry_map (derived e1) m"
    and fr': "\<forall>a<next_ptr h1. a \<noteq> this \<longrightarrow> objs h' a = objs h1 a"
    by blast
  have run: "declare_all (d # ds) h this = Some (next_ptr h # ps, h')"
    using s r d by simp
  have first: "entry_map (derived e') n = Some (next_ptr h)"
    using others fresh em1 by simp
  have firsto: "objs h' (next_ptr h) = Some (T n)"
    using fr' nx new1 Cons.prems(3) by simp
  have eachi: "entry_map (derived e') (fst (snd ((d # ds) ! i))) = Some ((next_ptr h # ps) ! i)
           \<and> objs h' ((next_ptr h # ps) ! i)
               = Some (snd (snd ((d # ds) ! i)) (fst (snd ((d # ds) ! i))))
           \<and> next_ptr h \<le> (next_ptr h # ps) ! i" if "i < length (d # ds)" for i
  proof (cases i)
    case 0
    then show ?thesis using first firsto d by simp
  next
    case (Suc j)
    with that have "j < length ds" by simp
    with each nx Suc show ?thesis by auto
  qed
  have oth: "entry_map (derived e') m = entry_map (derived e) m"
    if "m \<notin> set (map (\<lambda>d. fst (snd d)) (d # ds))" for m
    using that others em1 d by simp
  have fr: "objs h' a = objs h a" if "a < next_ptr h" "a \<noteq> this" for a
    using that fr' fr1 nx by simp
  from run len o' sc' nx nx' eachi oth fr show ?case
    by (intro exI [of _ "next_ptr h # ps"] exI [of _ h'] exI [of _ e']) simp
qed

lemmas ctor_defs = ConfigEntry_ctor_def ConfigScope_ctor_def ConfigEntry_Linked_double_ctor_def
  ConfigEntry_Linked_string_ctor_def ConfigEntry_DoubleVar_ctor_def
  ConfigEntry_StringVar_ctor_def ConfigEntry.extend_def

lemmas decl_defs = NewPtr_def Add_def AddBuiltin_def AddScope_def AddValueVar_def
  AddStringVar_def LinkVar_double_def LinkVar_string_def heap_empty_def

lemmas chain_defs = chain_A_def chain_B_def chain_C_def chain_x_def

lemmas cloned_defs = cloned_chain_def cloned_chain_x_def

lemma Add_parents_ok:
  assumes ok: "heap_ok h" and par: "parents_ok h"
    and o: "objs h this = Some e" and sc: "IsScope e"
    and ts: "scope (T n) = Some this" and tc: "children (T n) = []"
  shows "\<exists>h' e'. (if builtin then AddBuiltin T n h this else Add T n h this) = Some (next_ptr h, h')
     \<and> heap_ok h' \<and> parents_ok h'
     \<and> objs h' this = Some e' \<and> IsScope e' \<and> scope e' = scope e
     \<and> next_ptr h \<in> set (children e')
     \<and> entry_map (derived e') = (entry_map (derived e))(n \<mapsto> next_ptr h)
     \<and> objs h' (next_ptr h) = Some (T n)"
proof -
  from ok o have lt: "this < next_ptr h" by (simp add: heap_ok_def)
  from sc obtain el bl em ty where d: "derived e = ConfigScope el bl em ty"
    by (cases "derived e") (simp_all add: IsScope_def)
  let ?N = "next_ptr h"
  let ?e' = "e\<lparr>derived := if builtin then ConfigScope el (bl @ [?N]) (em(n \<mapsto> ?N)) ty
                           else ConfigScope (el @ [?N]) bl (em(n \<mapsto> ?N)) ty\<rparr>"
  let ?h' = "h\<lparr>objs := (objs h)(?N \<mapsto> T n, this \<mapsto> ?e'), next_ptr := Suc ?N\<rparr>"
  have run: "(if builtin then AddBuiltin T n h this else Add T n h this) = Some (?N, ?h')"
    using o d lt by (simp add: Add_def AddBuiltin_def NewPtr_def)
  have ch': "set (children ?e') = insert ?N (set (children e))"
    using d by (auto simp: children_def)
  have hok: "heap_ok ?h'"
    unfolding heap_ok_def
  proof (intro allI impI)
    fix a ea assume a: "objs ?h' a = Some ea"
    show "a < next_ptr ?h' \<and> (\<forall>p\<in>set (children ea). p < next_ptr ?h')"
    proof (cases "a = this")
      case True
      with a have ea: "ea = ?e'" by simp
      have "\<forall>p\<in>set (children e). p < ?N"
        using ok o by (simp add: heap_ok_def)
      then have "\<forall>p\<in>set (children ?e'). p < Suc ?N"
        unfolding ch' by (simp add: less_Suc_eq)
      with ea lt True show ?thesis by simp
    next
      case False
      show ?thesis
      proof (cases "a = ?N")
        case True
        with a False have "ea = T n" by simp
        with tc True show ?thesis by simp
      next
        case F2: False
        with a False have "objs h a = Some ea" by simp
        with ok show ?thesis by (fastforce simp: heap_ok_def)
      qed
    qed
  qed
  have fresh: "objs h ?N = None"
    using ok by (cases "objs h ?N") (auto simp: heap_ok_def)
  have pok: "parents_ok ?h'"
    unfolding parents_ok_def
  proof (intro allI impI ballI)
    fix a ea p assume a: "objs ?h' a = Some ea" and p: "p \<in> set (children ea)"
    have old: "\<exists>ep. objs ?h' q = Some ep \<and> scope ep = Some b"
      if "objs h b = Some eb" "q \<in> set (children eb)" for q b eb
    proof -
      from par that have "\<exists>ep. objs h q = Some ep \<and> scope ep = Some b"
        unfolding parents_ok_def by blast
      then obtain ep where ep: "objs h q = Some ep" "scope ep = Some b" by blast
      from ep fresh have "q \<noteq> ?N" by auto
      with ep show ?thesis by (cases "q = this") (use o in auto)
    qed
    show "\<exists>ep. objs ?h' p = Some ep \<and> scope ep = Some a"
    proof (cases "a = this")
      case True
      with a have ea: "ea = ?e'" by simp
      show ?thesis
      proof (cases "p = ?N")
        case True
        with ts lt \<open>a = this\<close> show ?thesis by simp
      next
        case False
        with p ea ch' have "p \<in> set (children e)" by simp
        from old [OF o this] True show ?thesis by simp
      qed
    next
      case False
      show ?thesis
      proof (cases "a = ?N")
        case True
        with a False have "ea = T n" by simp
        with tc p show ?thesis by simp
      next
        case F2: False
        with a False have "objs h a = Some ea" by simp
        from old [OF this p] show ?thesis .
      qed
    qed
  qed
  have "objs ?h' this = Some ?e'" "IsScope ?e'" "scope ?e' = scope e"
    "?N \<in> set (children ?e')" "entry_map (derived ?e') = (entry_map (derived e))(n \<mapsto> ?N)"
    "objs ?h' ?N = Some (T n)"
    using d lt ch' by (simp_all add: IsScope_def)
  with run hok pok show ?thesis by blast
qed

lemma root_parents_ok:
  "heap_ok (snd (NewPtr (ConfigScope_ctor E n d None ty) heap_empty))"
  "parents_ok (snd (NewPtr (ConfigScope_ctor E n d None ty) heap_empty))"
  by (auto simp: heap_ok_def parents_ok_def NewPtr_def heap_empty_def ctor_defs children_def
      split: if_splits)

lemma ctor_children:
  "children (ConfigScope_ctor E x d s ty) = []"
  "children (ConfigEntry_DoubleVar_ctor E x v d s) = []"
  "children (ConfigEntry_StringVar_ctor E x sv d s) = []"
  "children (ConfigEntry_Linked_double_ctor E x r d s) = []"
  "children (ConfigEntry_Linked_string_ctor E x r d s) = []"
  by (simp_all add: ctor_defs children_def)

lemma ctor_scope:
  "scope (ConfigScope_ctor E x d s ty) = s"
  "scope (ConfigEntry_DoubleVar_ctor E x v d s) = s"
  "scope (ConfigEntry_StringVar_ctor E x sv d s) = s"
  "scope (ConfigEntry_Linked_double_ctor E x r d s) = s"
  "scope (ConfigEntry_Linked_string_ctor E x r d s) = s"
  by (simp_all add: ctor_defs)

lemma declaration_parents_ok:
  assumes ok: "heap_ok h" and par: "parents_ok h"
    and o: "objs h this = Some e" and sc: "IsScope e"
    and r: "(r, ep) \<in>
      {(AddScope E n d ty h this, ConfigScope_ctor E n d (Some this) ty),
       (AddValueVar E n d h this, ConfigEntry_DoubleVar_ctor E n 0 d (Some this)),
       (AddStringVar E n d h this, ConfigEntry_StringVar_ctor E n [] d (Some this)),
       (LinkVar_double E n v d dv h this, ConfigEntry_Linked_double_ctor E n v d (Some this)),
       (LinkVar_string E n w d dv h this, ConfigEntry_Linked_string_ctor E n w d (Some this))}"
  shows "\<exists>h' e'. r = Some (next_ptr h, h')
     \<and> heap_ok h' \<and> parents_ok h'
     \<and> objs h' this = Some e' \<and> IsScope e' \<and> scope e' = scope e
     \<and> next_ptr h \<in> set (children e')
     \<and> entry_map (derived e') = (entry_map (derived e))(n \<mapsto> next_ptr h)
     \<and> objs h' (next_ptr h) = Some ep \<and> scope ep = Some this"
proof -
  note A = Add_parents_ok [OF ok par o sc, where builtin = False and n = n, simplified]
  from r consider
      (a) "r = AddScope E n d ty h this" "ep = ConfigScope_ctor E n d (Some this) ty"
    | (b) "r = AddValueVar E n d h this" "ep = ConfigEntry_DoubleVar_ctor E n 0 d (Some this)"
    | (c) "r = AddStringVar E n d h this" "ep = ConfigEntry_StringVar_ctor E n [] d (Some this)"
    | (d) "r = LinkVar_double E n v d dv h this"
          "ep = ConfigEntry_Linked_double_ctor E n v d (Some this)"
    | (e) "r = LinkVar_string E n w d dv h this"
          "ep = ConfigEntry_Linked_string_ctor E n w d (Some this)" by auto
  then show ?thesis
  proof cases
    case a
    from A [of "\<lambda>x. ConfigScope_ctor E x d (Some this) ty"] a show ?thesis
      by (simp add: AddScope_def ctor_children ctor_scope)
  next
    case b
    from A [of "\<lambda>x. ConfigEntry_DoubleVar_ctor E x 0 d (Some this)"] b show ?thesis
      by (simp add: AddValueVar_def ctor_children ctor_scope)
  next
    case c
    from A [of "\<lambda>x. ConfigEntry_StringVar_ctor E x [] d (Some this)"] c show ?thesis
      by (simp add: AddStringVar_def ctor_children ctor_scope)
  next
    case d
    from A [of "\<lambda>x. ConfigEntry_Linked_double_ctor E x v d (Some this)"] d show ?thesis
      by (simp add: LinkVar_double_def ctor_children ctor_scope)
  next
    case e
    from A [of "\<lambda>x. ConfigEntry_Linked_string_ctor E x w d (Some this)"] e show ?thesis
      by (simp add: LinkVar_string_def ctor_children ctor_scope)
  qed
qed

lemma contained_parent:
  assumes "parents_ok h" "objs h A = Some eA" "B \<in> set (children eA)"
  shows "\<exists>eB. objs h B = Some eB \<and> scope eB = Some A"
  using assms by (auto simp: parents_ok_def)

lemma children_IsScope: "p \<in> set (children e) \<Longrightarrow> IsScope e"
  by (cases "derived e") (simp_all add: children_def IsScope_def)

lemma chain_x_objs:
  "fst chain_A = 0" "fst chain_B = 1" "fst chain_C = 2" "fst chain_x = 3"
  "objs (snd chain_x) 0 = Some (ConfigScope_ctor emp_example ''A'' [] None []
      \<lparr>derived := ConfigScope [1, 3] [] [''B'' \<mapsto> 1, ''x'' \<mapsto> 3] []\<rparr>)"
  "objs (snd chain_x) 1 = Some (ConfigScope_ctor emp_example ''B'' [] (Some 0) []
      \<lparr>derived := ConfigScope [2] [] [''C'' \<mapsto> 2] []\<rparr>)"
  "objs (snd chain_x) 2 = Some (ConfigScope_ctor emp_example ''C'' [] (Some 1) [])"
  by (simp_all add: chain_defs decl_defs ctor_defs eval_nat_numeral)

lemma parents_ok_chain_x: "parents_ok (snd chain_x)"
  by (auto simp: parents_ok_def chain_defs decl_defs ctor_defs children_def split: if_splits)

lemma chain_B_run:
  "AddScope emp_example ''B'' [] [] (snd chain_A) 0 = Some chain_B"
  "objs (snd chain_A) 0 = Some (ConfigScope_ctor emp_example ''A'' [] None [])"
  "next_ptr (snd chain_A) = 1"
  by (simp_all add: chain_defs decl_defs ctor_defs)

text \<open>
  C1. On a scope, \<open>LookupEntry\<close> first searches the scope's own map and returns the
  child found there, so an inner declaration hides an outer one; when the name is absent,
  \<open>scan_scopes\<close> is set and the scope has a parent, the answer is the parent's; when
  the name is absent and there is no parent or \<open>scan_scopes\<close> is unset, the answer is
  \<^verbatim>\<open>nullptr\<close>. Whenever the chain of parents ends, the call returns a value. The
  lookup follows the \<open>scope\<close> pointers, not the containment: in a chain of three scopes A
  contains B contains C of which only A declares the name, C finds A's declaration with
  \<open>scan_scopes\<close> set, and nothing without it, provided the \<open>scope\<close> pointer of C
  is B and that of B is A. This holds in every store in which each owned pointer leads to an
  object that points back to its owner, as in a fresh root scope and after every declaration
  (\<open>AddScope\<close>, \<open>AddValueVar\<close>, \<open>AddStringVar\<close>, \<open>LinkVar\<close>), each of
  which returns, appends the new entry to the scope, maps its name and sets its \<open>scope\<close>
  pointer to the declaring scope. The copies made by \<open>Clone\<close> keep the \<open>scope\<close>
  pointers of the originals: from the clone of C, a name declared only in the clone of A is
  not found.
\<close>

theorem LookupEntry_lexical_scoping:
  assumes "objs h s = Some e" and "derived e = ConfigScope el bl em ty"
  shows "(\<forall>p. em n = Some p \<longrightarrow> LookupEntry h s n b = Some (Some p))
    \<and> (\<forall>q. em n = None \<and> b \<and> scope e = Some q
          \<longrightarrow> LookupEntry h s n b = LookupEntry h q n True)
    \<and> (em n = None \<and> (scope e = None \<or> \<not> b) \<longrightarrow> LookupEntry h s n b = Some None)
    \<and> (scope_chain h s \<longrightarrow> (\<exists>r. LookupEntry h s n b = Some r))
    \<and> (\<forall>B eB elB blB emB tyB A eA elA blA emA tyA x.
          em n = None \<and> scope e = Some B
          \<and> objs h B = Some eB \<and> derived eB = ConfigScope elB blB emB tyB
          \<and> emB n = None \<and> scope eB = Some A
          \<and> objs h A = Some eA \<and> derived eA = ConfigScope elA blA emA tyA
          \<and> emA n = Some x
          \<longrightarrow> LookupEntry h s n True = Some (Some x)
              \<and> LookupEntry h s n False = Some None)
    \<and> (\<forall>A eA B eB x.
          parents_ok h
          \<and> objs h A = Some eA \<and> B \<in> set (children eA)
          \<and> objs h B = Some eB \<and> s \<in> set (children eB)
          \<and> entry_map (derived eA) n = Some x
          \<and> entry_map (derived eB) n = None \<and> em n = None
          \<longrightarrow> LookupEntry h s n True = Some (Some x)
              \<and> LookupEntry h s n False = Some None)
    \<and> heap_ok (snd (NewPtr (ConfigScope_ctor E m d None t) heap_empty))
    \<and> parents_ok (snd (NewPtr (ConfigScope_ctor E m d None t) heap_empty))
    \<and> (\<forall>r ep.
          heap_ok h \<and> parents_ok h
          \<and> (r, ep) \<in>
              {(AddScope E m d t h s, ConfigScope_ctor E m d (Some s) t),
               (AddValueVar E m d h s, ConfigEntry_DoubleVar_ctor E m 0 d (Some s)),
               (AddStringVar E m d h s, ConfigEntry_StringVar_ctor E m [] d (Some s)),
               (LinkVar_double E m v d dv h s, ConfigEntry_Linked_double_ctor E m v d (Some s)),
               (LinkVar_string E m w d dv h s, ConfigEntry_Linked_string_ctor E m w d (Some s))}
          \<longrightarrow> (\<exists>h' e'. r = Some (next_ptr h, h')
                \<and> heap_ok h' \<and> parents_ok h'
                \<and> objs h' s = Some e' \<and> IsScope e' \<and> scope e' = scope e
                \<and> next_ptr h \<in> set (children e')
                \<and> entry_map (derived e') = em(m \<mapsto> next_ptr h)
                \<and> objs h' (next_ptr h) = Some ep \<and> scope ep = Some s))"
proof (intro conjI allI impI)
  fix p assume "em n = Some p"
  with assms show "LookupEntry h s n b = Some (Some p)"
    by (rule LookupEntry_found)
next
  fix q assume "em n = None \<and> b \<and> scope e = Some q"
  with assms show "LookupEntry h s n b = LookupEntry h q n True"
    by (simp add: LookupEntry_parent)
next
  assume "em n = None \<and> (scope e = None \<or> \<not> b)"
  with assms show "LookupEntry h s n b = Some None"
    by (simp add: LookupEntry_absent)
next
  assume "scope_chain h s"
  then show "\<exists>r. LookupEntry h s n b = Some r"
    by (rule LookupEntry_total)
next
  fix B eB elB blB emB tyB A eA elA blA emA tyA x
  assume a: "em n = None \<and> scope e = Some B
          \<and> objs h B = Some eB \<and> derived eB = ConfigScope elB blB emB tyB
          \<and> emB n = None \<and> scope eB = Some A
          \<and> objs h A = Some eA \<and> derived eA = ConfigScope elA blA emA tyA
          \<and> emA n = Some x"
  have "LookupEntry h s n True = LookupEntry h B n True"
    using assms a by (simp add: LookupEntry_parent)
  also have "\<dots> = LookupEntry h A n True"
    using a by (simp add: LookupEntry_parent)
  also have "\<dots> = Some (Some x)"
    using a by (simp add: LookupEntry_found)
  finally show "LookupEntry h s n True = Some (Some x)" .
next
  fix B eB elB blB emB tyB A eA elA blA emA tyA x
  assume a: "em n = None \<and> scope e = Some B
          \<and> objs h B = Some eB \<and> derived eB = ConfigScope elB blB emB tyB
          \<and> emB n = None \<and> scope eB = Some A
          \<and> objs h A = Some eA \<and> derived eA = ConfigScope elA blA emA tyA
          \<and> emA n = Some x"
  with assms show "LookupEntry h s n False = Some None"
    by (simp add: LookupEntry_absent)
next
  fix A eA B eB x
  assume a: "parents_ok h
          \<and> objs h A = Some eA \<and> B \<in> set (children eA)
          \<and> objs h B = Some eB \<and> s \<in> set (children eB)
          \<and> entry_map (derived eA) n = Some x
          \<and> entry_map (derived eB) n = None \<and> em n = None"
  from a have par: "parents_ok h" and oA: "objs h A = Some eA" and oB: "objs h B = Some eB"
    and BA: "B \<in> set (children eA)" and sB: "s \<in> set (children eB)"
    and mA: "entry_map (derived eA) n = Some x" and mB: "entry_map (derived eB) n = None"
    and m: "em n = None" by simp_all
  from contained_parent [OF par oA BA] oB have pB: "scope eB = Some A" by auto
  from contained_parent [OF par oB sB] assms(1) have ps: "scope e = Some B" by auto
  from children_IsScope [OF BA] obtain elA blA emA tyA
    where dA: "derived eA = ConfigScope elA blA emA tyA"
    by (cases "derived eA") (simp_all add: IsScope_def)
  from children_IsScope [OF sB] obtain elB blB emB tyB
    where dB: "derived eB = ConfigScope elB blB emB tyB"
    by (cases "derived eB") (simp_all add: IsScope_def)
  have "LookupEntry h s n True = LookupEntry h B n True"
    using assms m ps by (simp add: LookupEntry_parent)
  also have "\<dots> = LookupEntry h A n True"
    using oB dB mB pB by (simp add: LookupEntry_parent)
  also have "\<dots> = Some (Some x)"
    using oA dA mA by (simp add: LookupEntry_found)
  finally show "LookupEntry h s n True = Some (Some x)" .
  show "LookupEntry h s n False = Some None"
    using assms m by (simp add: LookupEntry_absent)
next
  show "heap_ok (snd (NewPtr (ConfigScope_ctor E m d None t) heap_empty))"
    by (rule root_parents_ok)
next
  show "parents_ok (snd (NewPtr (ConfigScope_ctor E m d None t) heap_empty))"
    by (rule root_parents_ok)
next
  fix r ep
  assume a: "heap_ok h \<and> parents_ok h
          \<and> (r, ep) \<in>
              {(AddScope E m d t h s, ConfigScope_ctor E m d (Some s) t),
               (AddValueVar E m d h s, ConfigEntry_DoubleVar_ctor E m 0 d (Some s)),
               (AddStringVar E m d h s, ConfigEntry_StringVar_ctor E m [] d (Some s)),
               (LinkVar_double E m v d dv h s, ConfigEntry_Linked_double_ctor E m v d (Some s)),
               (LinkVar_string E m w d dv h s, ConfigEntry_Linked_string_ctor E m w d (Some s))}"
  have sc: "IsScope e" using assms(2) by (simp add: IsScope_def)
  have em: "entry_map (derived e) = em" using assms(2) by simp
  from a have ok: "heap_ok h" and par: "parents_ok h" by simp_all
  from a have r: "(r, ep) \<in>
              {(AddScope E m d t h s, ConfigScope_ctor E m d (Some s) t),
               (AddValueVar E m d h s, ConfigEntry_DoubleVar_ctor E m 0 d (Some s)),
               (AddStringVar E m d h s, ConfigEntry_StringVar_ctor E m [] d (Some s)),
               (LinkVar_double E m v d dv h s, ConfigEntry_Linked_double_ctor E m v d (Some s)),
               (LinkVar_string E m w d dv h s, ConfigEntry_Linked_string_ctor E m w d (Some s))}"
    by (elim conjE)
  from declaration_parents_ok [OF ok par assms(1) sc r]
  show "\<exists>h' e'. r = Some (next_ptr h, h')
                \<and> heap_ok h' \<and> parents_ok h'
                \<and> objs h' s = Some e' \<and> IsScope e' \<and> scope e' = scope e
                \<and> next_ptr h \<in> set (children e')
                \<and> entry_map (derived e') = em(m \<mapsto> next_ptr h)
                \<and> objs h' (next_ptr h) = Some ep \<and> scope ep = Some s"
    unfolding em .
qed

theorem LookupEntry_lexical_scoping_witness:
  "objs (snd chain_x) 2 = Some (ConfigScope_ctor emp_example ''C'' [] (Some 1) [])
   \<and> derived (ConfigScope_ctor emp_example ''C'' [] (Some 1) []) = ConfigScope [] [] Map.empty []
   \<and> scope_chain (snd chain_x) 2
   \<and> parents_ok (snd chain_x)
   \<and> 1 \<in> set (children (the (objs (snd chain_x) 0)))
   \<and> 2 \<in> set (children (the (objs (snd chain_x) 1)))
   \<and> LookupEntry (snd chain_x) 2 ''x'' True = Some (Some 3)
   \<and> LookupEntry (snd chain_x) 2 ''x'' False = Some None
   \<and> LookupEntry (snd chain_x) 2 ''C'' True = Some (Some 2)
   \<and> LookupEntry (snd chain_x) 0 ''x'' False = Some (Some 3)
   \<and> AddScope emp_example ''B'' [] [] (snd chain_A) 0 = Some chain_B
   \<and> heap_ok (snd chain_A) \<and> parents_ok (snd chain_A)
   \<and> heap_ok (snd chain_B) \<and> parents_ok (snd chain_B)
   \<and> scope (the (objs (snd chain_B) 1)) = Some 0"
proof -
  let ?h = "snd chain_x"
  let ?A = "ConfigScope_ctor emp_example ''A'' [] None []
      \<lparr>derived := ConfigScope [1, 3] [] [''B'' \<mapsto> 1, ''x'' \<mapsto> 3] []\<rparr>"
  let ?B = "ConfigScope_ctor emp_example ''B'' [] (Some 0) []
      \<lparr>derived := ConfigScope [2] [] [''C'' \<mapsto> 2] []\<rparr>"
  let ?C = "ConfigScope_ctor emp_example ''C'' [] (Some 1) []"
  let ?R = "ConfigScope_ctor emp_example ''A'' [] None []"
  have oC: "objs ?h 2 = Some ?C" and oB: "objs ?h 1 = Some ?B" and oA: "objs ?h 0 = Some ?A"
    by (rule chain_x_objs)+
  have dC: "derived ?C = ConfigScope [] [] Map.empty []"
    and dB: "derived ?B = ConfigScope [2] [] [''C'' \<mapsto> 2] []"
    and dA: "derived ?A = ConfigScope [1, 3] [] [''B'' \<mapsto> 1, ''x'' \<mapsto> 3] []"
    by (simp_all add: ctor_defs)
  have sC: "scope ?C = Some 1" and sB: "scope ?B = Some 0" and sA: "scope ?A = None"
    by (simp_all add: ctor_defs)
  have cA: "scope_chain ?h 0"
    by (rule scope_chain_root [OF oA sA])
  have cB: "scope_chain ?h 1"
    by (rule scope_chain_step [OF oB sB cA])
  have cC: "scope_chain ?h 2"
    by (rule scope_chain_step [OF oC sC cB])
  have kA: "1 \<in> set (children ?A)" and kB: "2 \<in> set (children ?B)"
    by (simp_all add: children_def ctor_defs)
  have mA: "entry_map (derived ?A) ''x'' = Some 3" and mB: "entry_map (derived ?B) ''x'' = None"
    and mC: "(Map.empty :: string \<rightharpoonup> addr) ''x'' = None"
    by (simp_all add: ctor_defs)

  have up: "LookupEntry ?h 2 ''x'' True = Some (Some 3)
      \<and> LookupEntry ?h 2 ''x'' False = Some None"
    using LookupEntry_lexical_scoping [OF oC dC, of "''x''" True, THEN conjunct2, THEN conjunct2, THEN conjunct2,
        THEN conjunct2, THEN conjunct2, THEN conjunct1, rule_format, of 0 ?A 1 ?B 3]
      parents_ok_chain_x oA oB kA kB mA mB mC by simp
  have "\<exists>r. LookupEntry ?h 2 ''C'' True = Some r"
    using LookupEntry_lexical_scoping [OF oC dC, of "''C''" True, THEN conjunct2, THEN conjunct2, THEN conjunct2,
        THEN conjunct1] cC by simp
  moreover have "LookupEntry ?h 2 ''C'' True = LookupEntry ?h 1 ''C'' True"
    using LookupEntry_lexical_scoping [OF oC dC, of "''C''" True, THEN conjunct2, THEN conjunct1] sC by simp
  moreover have "LookupEntry ?h 1 ''C'' True = Some (Some 2)"
    using LookupEntry_lexical_scoping [OF oB dB, of "''C''" True, THEN conjunct1] by simp
  ultimately have miss: "LookupEntry ?h 2 ''C'' True = Some (Some 2)" by simp
  have loc: "LookupEntry ?h 0 ''x'' False = Some (Some 3)"
    using LookupEntry_lexical_scoping [OF oA dA, of "''x''" False, THEN conjunct1] by simp
  have o0: "objs (snd chain_A) 0 = Some ?R" by (rule chain_B_run)
  have d0: "derived ?R = ConfigScope [] [] Map.empty []" by (simp add: ctor_defs)
  have root: "heap_ok (snd chain_A) \<and> parents_ok (snd chain_A)"
    using LookupEntry_lexical_scoping [OF o0 d0, of _ _ emp_example "''A''" "[]" "[]", THEN conjunct2, THEN conjunct2,
        THEN conjunct2, THEN conjunct2, THEN conjunct2, THEN conjunct2]
    by (simp add: chain_A_def)
  have "\<exists>h' e'. AddScope emp_example ''B'' [] [] (snd chain_A) 0 = Some (next_ptr (snd chain_A), h')
                \<and> heap_ok h' \<and> parents_ok h'
                \<and> objs h' 0 = Some e' \<and> IsScope e' \<and> scope e' = scope ?R
                \<and> next_ptr (snd chain_A) \<in> set (children e')
                \<and> entry_map (derived e') = Map.empty(''B'' \<mapsto> next_ptr (snd chain_A))
                \<and> objs h' (next_ptr (snd chain_A))
                    = Some (ConfigScope_ctor emp_example ''B'' [] (Some 0) [])
                \<and> scope (ConfigScope_ctor emp_example ''B'' [] (Some 0) []) = Some 0"
    using LookupEntry_lexical_scoping [OF o0 d0, of _ _ emp_example "''B''" "[]" "[]", THEN conjunct2, THEN conjunct2,
        THEN conjunct2, THEN conjunct2, THEN conjunct2, THEN conjunct2, THEN conjunct2,
        THEN conjunct2, rule_format,
        of "AddScope emp_example ''B'' [] [] (snd chain_A) 0"
           "ConfigScope_ctor emp_example ''B'' [] (Some 0) []"] root
    by simp
  then obtain h' where run: "AddScope emp_example ''B'' [] [] (snd chain_A) 0 = Some (1, h')"
    and ok': "heap_ok h'" and par': "parents_ok h'"
    and new: "objs h' 1 = Some (ConfigScope_ctor emp_example ''B'' [] (Some 0) [])"
    using chain_B_run(3) by auto
  have "chain_B = (1, h')" using run unfolding chain_B_run(1) by (simp only: option.inject)
  then have "snd chain_B = snd (1::addr, h')" by (rule arg_cong)
  then have "snd chain_B = h'" by (simp only: snd_conv)
  with ok' par' new have decl: "heap_ok (snd chain_B) \<and> parents_ok (snd chain_B)
      \<and> scope (the (objs (snd chain_B) 1)) = Some 0"
    by (simp add: ctor_defs)
  from oC dC cC parents_ok_chain_x oA oB kA kB up miss loc root decl chain_B_run(1)
  show ?thesis by simp
qed

theorem cloned_chain_lookup_counterexample:
  "fst cloned_chain = 3 \<and> fst cloned_chain_x = 6
   \<and> entry_list (derived (the (objs (snd cloned_chain_x) 3))) = [4, 6]
   \<and> entry_list (derived (the (objs (snd cloned_chain_x) 4))) = [5]
   \<and> IsScope (the (objs (snd cloned_chain_x) 3))
   \<and> IsScope (the (objs (snd cloned_chain_x) 4))
   \<and> IsScope (the (objs (snd cloned_chain_x) 5))
   \<and> entry_map (derived (the (objs (snd cloned_chain_x) 3))) ''x'' = Some 6
   \<and> entry_map (derived (the (objs (snd cloned_chain_x) 4))) ''x'' = None
   \<and> entry_map (derived (the (objs (snd cloned_chain_x) 5))) ''x'' = None
   \<and> scope (the (objs (snd cloned_chain_x) 5)) = Some 1
   \<and> scope (the (objs (snd cloned_chain_x) 4)) = Some 0
   \<and> LookupEntry (snd cloned_chain_x) 3 ''x'' True = Some (Some 6)
   \<and> LookupEntry (snd cloned_chain_x) 5 ''x'' True = Some None"
  by (simp add: cloned_defs chain_defs decl_defs ctor_defs eval_nat_numeral IsScope_def
      LookupEntry.simps)

subsection \<open>Declaration\<close>

lemmas twice_defs = chain_A_def twice_x1_def twice_x2_def

text \<open>
  C2, as the code has it. A declaration never fails on a name that is already present:
  \<open>Add\<close> and \<open>AddBuiltin\<close> on an allocated scope always return the new child, append
  it to their vector and assign the map entry of the name, replacing what the entry held;
  the lookup of any other name is unchanged. For declarations under distinct names, each
  name then resolves, without scanning outer scopes, to the very object its declaration
  allocated.
\<close>

theorem declaration_assigns_map_entry:
  assumes "objs h this = Some e" and "IsScope e" and "this < next_ptr h"
  shows "(\<exists>h' e'. (if builtin then AddBuiltin T n h this else Add T n h this)
              = Some (next_ptr h, h')
          \<and> objs h' (next_ptr h) = Some (T n)
          \<and> objs h' this = Some e'
          \<and> entry_list (derived e')
              = entry_list (derived e) @ (if builtin then [] else [next_ptr h])
          \<and> builtin_list (derived e')
              = builtin_list (derived e) @ (if builtin then [next_ptr h] else [])
          \<and> LookupEntry h' this n False = Some (Some (next_ptr h))
          \<and> (\<forall>m. m \<noteq> n \<longrightarrow> LookupEntry h' this m False = LookupEntry h this m False))
    \<and> (distinct (map (\<lambda>d. fst (snd d)) ds) \<longrightarrow>
        (\<exists>ps h'. declare_all ds h this = Some (ps, h') \<and> length ps = length ds
          \<and> (\<forall>i<length ds.
                LookupEntry h' this (fst (snd (ds ! i))) False = Some (Some (ps ! i))
                \<and> objs h' (ps ! i) = Some (snd (snd (ds ! i)) (fst (snd (ds ! i)))))))"
proof (intro conjI impI)
  from declare_step [OF assms, of builtin T n]
  obtain h' e' where
    s: "(if builtin then AddBuiltin T n h this else Add T n h this) = Some (next_ptr h, h')"
    and o': "objs h' this = Some e'" and sc': "IsScope e'"
    and em': "entry_map (derived e') = (entry_map (derived e))(n \<mapsto> next_ptr h)"
    and el': "entry_list (derived e')
        = entry_list (derived e) @ (if builtin then [] else [next_ptr h])"
    and bl': "builtin_list (derived e')
        = builtin_list (derived e) @ (if builtin then [next_ptr h] else [])"
    and new': "objs h' (next_ptr h) = Some (T n)"
    by blast
  have "LookupEntry h' this n False = Some (Some (next_ptr h))"
    using LookupEntry_local [OF o' sc'] em' by simp
  moreover have "LookupEntry h' this m False = LookupEntry h this m False" if "m \<noteq> n" for m
    using LookupEntry_local [OF o' sc'] LookupEntry_local [OF assms(1,2)] em' that by simp
  ultimately show "\<exists>h' e'. (if builtin then AddBuiltin T n h this else Add T n h this)
              = Some (next_ptr h, h')
          \<and> objs h' (next_ptr h) = Some (T n)
          \<and> objs h' this = Some e'
          \<and> entry_list (derived e')
              = entry_list (derived e) @ (if builtin then [] else [next_ptr h])
          \<and> builtin_list (derived e')
              = builtin_list (derived e) @ (if builtin then [next_ptr h] else [])
          \<and> LookupEntry h' this n False = Some (Some (next_ptr h))
          \<and> (\<forall>m. m \<noteq> n \<longrightarrow> LookupEntry h' this m False = LookupEntry h this m False)"
    using s o' el' bl' new' by blast
next
  assume "distinct (map (\<lambda>d. fst (snd d)) ds)"
  from declare_all_resolves [OF assms this]
  obtain ps h' e' where
    r: "declare_all ds h this = Some (ps, h')" and len: "length ps = length ds"
    and o': "objs h' this = Some e'" and sc': "IsScope e'"
    and each: "\<forall>i<length ds. entry_map (derived e') (fst (snd (ds ! i))) = Some (ps ! i)
           \<and> objs h' (ps ! i) = Some (snd (snd (ds ! i)) (fst (snd (ds ! i))))
           \<and> next_ptr h \<le> ps ! i"
    by blast
  have "\<forall>i<length ds.
      LookupEntry h' this (fst (snd (ds ! i))) False = Some (Some (ps ! i))
      \<and> objs h' (ps ! i) = Some (snd (snd (ds ! i)) (fst (snd (ds ! i))))"
    using each LookupEntry_local [OF o' sc'] by simp
  with r len show "\<exists>ps h'. declare_all ds h this = Some (ps, h') \<and> length ps = length ds
          \<and> (\<forall>i<length ds.
                LookupEntry h' this (fst (snd (ds ! i))) False = Some (Some (ps ! i))
                \<and> objs h' (ps ! i) = Some (snd (snd (ds ! i)) (fst (snd (ds ! i)))))"
    by blast
qed

theorem declaration_assigns_map_entry_witness:
  "objs (snd chain_A) 0 = Some (ConfigScope_ctor emp_example ''A'' [] None [])
   \<and> IsScope (ConfigScope_ctor emp_example ''A'' [] None [])
   \<and> 0 < next_ptr (snd chain_A)
   \<and> distinct (map (\<lambda>d. fst (snd d))
        [(False, ''x'', \<lambda>n. ConfigEntry_DoubleVar_ctor emp_example n 0 [] (Some 0)),
         (True, ''y'', \<lambda>n. ConfigEntry_StringVar_ctor emp_example n [] [] (Some 0))])
   \<and> (\<exists>h'. declare_all
        [(False, ''x'', \<lambda>n. ConfigEntry_DoubleVar_ctor emp_example n 0 [] (Some 0)),
         (True, ''y'', \<lambda>n. ConfigEntry_StringVar_ctor emp_example n [] [] (Some 0))]
        (snd chain_A) 0 = Some ([1, 2], h')
      \<and> LookupEntry h' 0 ''x'' False = Some (Some 1)
      \<and> LookupEntry h' 0 ''y'' False = Some (Some 2)
      \<and> objs h' 1 = Some (ConfigEntry_DoubleVar_ctor emp_example ''x'' 0 [] (Some 0))
      \<and> objs h' 2 = Some (ConfigEntry_StringVar_ctor emp_example ''y'' [] [] (Some 0)))"
proof -
  let ?h = "snd chain_A"
  let ?ds = "[(False, ''x'', \<lambda>n. ConfigEntry_DoubleVar_ctor emp_example n 0 [] (Some 0)),
         (True, ''y'', \<lambda>n. ConfigEntry_StringVar_ctor emp_example n [] [] (Some 0))]"
  have o: "objs ?h 0 = Some (ConfigScope_ctor emp_example ''A'' [] None [])"
    by (simp add: chain_A_def decl_defs)
  have sc: "IsScope (ConfigScope_ctor emp_example ''A'' [] None [])"
    by (simp add: IsScope_def ctor_defs)
  have lt: "0 < next_ptr ?h"
    by (simp add: chain_A_def decl_defs)
  have di: "distinct (map (\<lambda>d. fst (snd d)) ?ds)" by simp
  from declaration_assigns_map_entry [OF o sc lt, of False "\<lambda>n. ConfigEntry_DoubleVar_ctor emp_example n 0 [] (Some 0)"
      "''x''" ?ds] di
  obtain ps h' where r: "declare_all ?ds ?h 0 = Some (ps, h')"
    and each: "\<forall>i<length ?ds.
                LookupEntry h' 0 (fst (snd (?ds ! i))) False = Some (Some (ps ! i))
                \<and> objs h' (ps ! i) = Some (snd (snd (?ds ! i)) (fst (snd (?ds ! i))))"
    by blast
  have ps: "ps = [1, 2]"
    using r by (auto simp: chain_A_def decl_defs ctor_defs split: option.splits)
  from each [rule_format, of 0] each [rule_format, of 1] r ps o sc lt di
  show ?thesis by simp
qed

text \<open>
  The same name declared twice in one scope: both declarations return, the second child
  takes over the map entry, and both children stay in \<open>entry_list\<close>.
\<close>

theorem redeclaration_is_silent_counterexample:
  "AddValueVar emp_example ''x'' [] (snd chain_A) 0 \<noteq> None
   \<and> AddValueVar emp_example ''x'' [] (snd twice_x1) 0 \<noteq> None
   \<and> fst twice_x1 = 1 \<and> fst twice_x2 = 2
   \<and> LookupEntry (snd twice_x1) 0 ''x'' False = Some (Some 1)
   \<and> LookupEntry (snd twice_x2) 0 ''x'' False = Some (Some 2)
   \<and> entry_list (derived (the (objs (snd twice_x2) 0))) = [1, 2]"
  by (simp add: twice_defs decl_defs ctor_defs LookupEntry.simps)

subsection \<open>Writing an entry\<close>

lemma SetValue_keeps_base:
  assumes "SetValue E h this x = Returned h'" and "objs h this = Some e"
  shows "\<exists>e'. objs h' this = Some e' \<and> ConfigEntry.truncate e' = ConfigEntry.truncate e
     \<and> IsScope e' = IsScope e"
  using assms
  by (cases "derived e")
     (auto simp: SetValue_def emp_assert_def ConfigEntry.truncate_def IsScope_def
        split: if_splits)

lemma SetString_keeps_base:
  assumes "SetString E h this x = Returned h'" and "objs h this = Some e"
  shows "\<exists>e'. objs h' this = Some e' \<and> ConfigEntry.truncate e' = ConfigEntry.truncate e
     \<and> IsScope e' = IsScope e"
  using assms
  by (cases "derived e")
     (auto simp: SetString_def emp_assert_def ConfigEntry.truncate_def IsScope_def
        split: if_splits)

lemma truncate_fields:
  "ConfigEntry.truncate e' = ConfigEntry.truncate e
   \<Longrightarrow> name e' = name e \<and> desc e' = desc e \<and> default_val e' = default_val e
       \<and> scope e' = scope e \<and> is_temporary e' = is_temporary e \<and> range_c e' = range_c e"
  by (auto simp: ConfigEntry.truncate_def)

lemma Write_entry:
  "objs h this = Some e \<Longrightarrow> \<not> IsScope e
   \<Longrightarrow> Write (Suc k) E h this os prefix off = ConfigEntry_Write E h this e os prefix off"
  by (cases "derived e") (simp_all add: IsScope_def)

lemma AsString_entry:
  "objs h this = Some e \<Longrightarrow> \<not> IsScope e \<Longrightarrow> \<exists>str. AsString E h this = Returned str"
  by (cases "derived e") (simp_all add: IsScope_def AsString_def)

lemma ConfigEntry_Write_default:
  "default_val e \<noteq> [] \<Longrightarrow> default_val e' = default_val e \<Longrightarrow> name e' = name e
   \<Longrightarrow> desc e' = desc e
   \<Longrightarrow> ConfigEntry_Write E h' this e' os prefix off = ConfigEntry_Write E h this e os prefix off"
  by (simp add: ConfigEntry_Write_def)

text \<open>
  C9. For an entry that is not a scope, \<open>Write\<close> prints the stored \<open>default_val\<close>
  whenever that text is not empty, and the current value (\<open>AsString\<close>) only when it is
  empty. So with a default text set, the line written after \<open>SetValue\<close> or
  \<open>SetString\<close> is the line written before: it does not show the new value.
\<close>

theorem Write_prefers_default_val:
  assumes "objs h this = Some e" and "\<not> IsScope e"
  shows "(default_val e \<noteq> [] \<longrightarrow>
        Write (Suc k) E h this os prefix off
          = Some (os @ prefix @ name e @ '' = '' @ default_val e @ '';''
              @ (if desc e \<noteq> []
                 then pad (length prefix + length (name e) + 3 + length (default_val e) + 1) off
                   @ ''// '' @ desc e
                 else [])
              @ endl)
        \<and> (\<forall>x h'. SetValue E h this x = Returned h'
              \<longrightarrow> Write (Suc k) E h' this os prefix off = Write (Suc k) E h this os prefix off)
        \<and> (\<forall>x h'. SetString E h this x = Returned h'
              \<longrightarrow> Write (Suc k) E h' this os prefix off = Write (Suc k) E h this os prefix off))
    \<and> (default_val e = [] \<longrightarrow>
        (\<exists>str. AsString E h this = Returned str
          \<and> Write (Suc k) E h this os prefix off
              = Some (os @ prefix @ name e @ '' = '' @ str @ '';''
                  @ (if desc e \<noteq> []
                     then pad (length prefix + length (name e) + 3 + length str + 1) off
                       @ ''// '' @ desc e
                     else [])
                  @ endl)))"
proof (intro conjI impI allI)
  assume "default_val e \<noteq> []"
  then show "Write (Suc k) E h this os prefix off
          = Some (os @ prefix @ name e @ '' = '' @ default_val e @ '';''
              @ (if desc e \<noteq> []
                 then pad (length prefix + length (name e) + 3 + length (default_val e) + 1) off
                   @ ''// '' @ desc e
                 else [])
              @ endl)"
    using Write_entry [OF assms] by (simp add: ConfigEntry_Write_def)
next
  fix x h'
  assume d: "default_val e \<noteq> []" and s: "SetValue E h this x = Returned h'"
  from SetValue_keeps_base [OF s assms(1)] obtain e' where
    o': "objs h' this = Some e'" and t: "ConfigEntry.truncate e' = ConfigEntry.truncate e"
    and sc: "IsScope e' = IsScope e" by blast
  from truncate_fields [OF t] d
  have "ConfigEntry_Write E h' this e' os prefix off = ConfigEntry_Write E h this e os prefix off"
    by (intro ConfigEntry_Write_default) simp_all
  then show "Write (Suc k) E h' this os prefix off = Write (Suc k) E h this os prefix off"
    using Write_entry [OF assms] Write_entry [OF o'] sc assms(2) by simp
next
  fix x h'
  assume d: "default_val e \<noteq> []" and s: "SetString E h this x = Returned h'"
  from SetString_keeps_base [OF s assms(1)] obtain e' where
    o': "objs h' this = Some e'" and t: "ConfigEntry.truncate e' = ConfigEntry.truncate e"
    and sc: "IsScope e' = IsScope e" by blast
  from truncate_fields [OF t] d
  have "ConfigEntry_Write E h' this e' os prefix off = ConfigEntry_Write E h this e os prefix off"
    by (intro ConfigEntry_Write_default) simp_all
  then show "Write (Suc k) E h' this os prefix off = Write (Suc k) E h this os prefix off"
    using Write_entry [OF assms] Write_entry [OF o'] sc assms(2) by simp
next
  assume d: "default_val e = []"
  from AsString_entry [OF assms] obtain str where a: "AsString E h this = Returned str"
    by blast
  with d show "\<exists>str. AsString E h this = Returned str
          \<and> Write (Suc k) E h this os prefix off
              = Some (os @ prefix @ name e @ '' = '' @ str @ '';''
                  @ (if desc e \<noteq> []
                     then pad (length prefix + length (name e) + 3 + length str + 1) off
                       @ ''// '' @ desc e
                     else [])
                  @ endl)"
    using Write_entry [OF assms] by (simp add: ConfigEntry_Write_def)
qed

lemma default_ex_obj:
  "objs default_ex 1 = Some ((ConfigEntry_DoubleVar_ctor emp_example ''x'' 0 [] (Some 0))
      \<lparr>desc := ''size'', default_val := ''7''\<rparr>)"
  by (simp add: default_ex_def twice_defs decl_defs ctor_defs SetDefault_def SetDesc_def)


theorem Write_prefers_default_val_witness:
  "objs default_ex 1 = Some ((ConfigEntry_DoubleVar_ctor emp_example ''x'' 0 [] (Some 0))
      \<lparr>desc := ''size'', default_val := ''7''\<rparr>)
   \<and> \<not> IsScope ((ConfigEntry_DoubleVar_ctor emp_example ''x'' 0 [] (Some 0))
      \<lparr>desc := ''size'', default_val := ''7''\<rparr>)
   \<and> SetValue emp_example default_ex 1 5
       = Returned (default_ex\<lparr>objs := (objs default_ex)(1 \<mapsto>
           (ConfigEntry_DoubleVar_ctor emp_example ''x'' 5 [] (Some 0))
             \<lparr>desc := ''size'', default_val := ''7''\<rparr>)\<rparr>)
   \<and> Write (Suc 0) emp_example (default_ex\<lparr>objs := (objs default_ex)(1 \<mapsto>
           (ConfigEntry_DoubleVar_ctor emp_example ''x'' 5 [] (Some 0))
             \<lparr>desc := ''size'', default_val := ''7''\<rparr>)\<rparr>) 1 [] ''  '' 12
       = Some (''  x = 7;    // size'' @ endl)
   \<and> AsString emp_example (snd twice_x1) 1 = Returned ''<double>''
   \<and> Write (Suc 0) emp_example (snd twice_x1) 1 [] ''  '' 12 = Some (''  x = <double>;'' @ endl)"
proof -
  let ?e = "(ConfigEntry_DoubleVar_ctor emp_example ''x'' 0 [] (Some 0))
      \<lparr>desc := ''size'', default_val := ''7''\<rparr>"
  let ?h' = "default_ex\<lparr>objs := (objs default_ex)(1 \<mapsto>
           (ConfigEntry_DoubleVar_ctor emp_example ''x'' 5 [] (Some 0))
             \<lparr>desc := ''size'', default_val := ''7''\<rparr>)\<rparr>"
  have o: "objs default_ex 1 = Some ?e" by (rule default_ex_obj)
  have ns: "\<not> IsScope ?e" by (simp add: IsScope_def ctor_defs)
  have sv: "SetValue emp_example default_ex 1 5 = Returned ?h'"
    using o by (simp add: SetValue_def ctor_defs)
  have d: "default_val ?e \<noteq> []" by simp
  note t = Write_prefers_default_val [OF o ns, of 0 emp_example "[]" "''  ''" 12]
  from t d have w0: "Write (Suc 0) emp_example default_ex 1 [] ''  '' 12
      = Some (''  x = 7;    // size'' @ endl)"
    by (simp del: Write.simps add: ctor_defs pad_def eval_nat_numeral)
  from t d sv have "Write (Suc 0) emp_example ?h' 1 [] ''  '' 12
      = Write (Suc 0) emp_example default_ex 1 [] ''  '' 12"
    by (simp del: Write.simps)
  with w0 have w1: "Write (Suc 0) emp_example ?h' 1 [] ''  '' 12 = Some (''  x = 7;    // size'' @ endl)"
    by (simp del: Write.simps)
  let ?x = "ConfigEntry_DoubleVar_ctor emp_example ''x'' 0 [] (Some 0)"
  have ox: "objs (snd twice_x1) 1 = Some ?x"
    by (simp add: twice_defs decl_defs ctor_defs)
  have nx: "\<not> IsScope ?x" by (simp add: IsScope_def ctor_defs)
  have dx: "default_val ?x = []" by (simp add: ctor_defs)
  have ax: "AsString emp_example (snd twice_x1) 1 = Returned ''<double>''"
    using ox by (simp add: AsString_def ctor_defs emp_example_def)
  from Write_prefers_default_val [OF ox nx, of 0 emp_example "[]" "''  ''" 12] dx ax
  have w2: "Write (Suc 0) emp_example (snd twice_x1) 1 [] ''  '' 12 = Some (''  x = <double>;'' @ endl)"
    by (simp del: Write.simps add: ctor_defs)
  from o ns sv w1 ax w2 show ?thesis by (simp del: Write.simps)
qed

subsection \<open>Writing a scope\<close>

lemma WriteContents_appends_step:
  assumes "\<And>x os. Write k E h x os prefix off = map_option ((@) os) (Write k E h x [] prefix off)"
  shows "WriteContents k E h xs os prefix off
     = map_option ((@) os) (WriteContents k E h xs [] prefix off)"
proof (induction xs arbitrary: os)
  case Nil
  show ?case by simp
next
  case (Cons x xs)
  show ?case
  proof (cases "Write k E h x [] prefix off")
    case None
    then show ?thesis using assms [of x os] by simp
  next
    case (Some t)
    have "WriteContents k E h (x # xs) os prefix off = WriteContents k E h xs (os @ t) prefix off"
      using assms [of x os] Some by simp
    also have "\<dots> = map_option ((@) (os @ t)) (WriteContents k E h xs [] prefix off)"
      by (rule Cons.IH)
    also have "\<dots> = map_option ((@) os) (map_option ((@) t) (WriteContents k E h xs [] prefix off))"
      by (cases "WriteContents k E h xs [] prefix off") simp_all
    also have "\<dots> = map_option ((@) os) (WriteContents k E h xs t prefix off)"
      using Cons.IH [of t] by simp
    also have "\<dots> = map_option ((@) os) (WriteContents k E h (x # xs) [] prefix off)"
      using Some by simp
    finally show ?thesis .
  qed
qed

lemma Write_appends:
  "Write k E h x os prefix off = map_option ((@) os) (Write k E h x [] prefix off)"
proof (induction k arbitrary: x os prefix)
  case 0
  show ?case by simp
next
  case (Suc k)
  show ?case
  proof (cases "objs h x")
    case None
    then show ?thesis by simp
  next
    case (Some e)
    show ?thesis
    proof (cases "derived e")
      case (ConfigScope el bl em ty)
      let ?open = "prefix @ name e @ '' = { ''
                     @ (if desc e \<noteq> []
                        then pad (length prefix + length (name e) + 5) off
                          @ ''// '' @ desc e
                        else [])
                     @ endl"
      have a: "WriteContents k E h el (os @ ?open) (prefix @ ''  '') off
          = map_option ((@) (os @ ?open)) (WriteContents k E h el [] (prefix @ ''  '') off)"
        by (rule WriteContents_appends_step) (rule Suc.IH)
      have b: "WriteContents k E h el ?open (prefix @ ''  '') off
          = map_option ((@) ?open) (WriteContents k E h el [] (prefix @ ''  '') off)"
        by (rule WriteContents_appends_step) (rule Suc.IH)
      show ?thesis
      proof (cases "WriteContents k E h el [] (prefix @ ''  '') off")
        case None
        with Some ConfigScope a b show ?thesis by simp
      next
        case (Some body)
        with \<open>objs h x = Some e\<close> ConfigScope a b show ?thesis by simp
      qed
    qed (use Some in \<open>auto simp: ConfigEntry_Write_def split: outcome.splits\<close>)
  qed
qed

lemma WriteContents_appends:
  "WriteContents k E h xs os prefix off
     = map_option ((@) os) (WriteContents k E h xs [] prefix off)"
  by (rule WriteContents_appends_step) (rule Write_appends)

lemma WriteContents_concat:
  "WriteContents k E h xs os prefix off = Some out \<longleftrightarrow>
     (\<exists>texts. length texts = length xs
        \<and> (\<forall>i<length xs. Write k E h (xs ! i) [] prefix off = Some (texts ! i))
        \<and> out = os @ concat texts)"
proof (induction xs arbitrary: os out)
  case Nil
  show ?case by auto
next
  case (Cons x xs)
  show ?case
  proof (cases "Write k E h x [] prefix off")
    case None
    have "Write k E h x os prefix off = None"
      using Write_appends [of k E h x os prefix off] None by simp
    moreover have "\<not> (\<exists>texts. length texts = length (x # xs)
        \<and> (\<forall>i<length (x # xs). Write k E h ((x # xs) ! i) [] prefix off = Some (texts ! i))
        \<and> out = os @ concat texts)"
      using None by (auto dest: spec [of _ 0])
    ultimately show ?thesis by simp
  next
    case (Some t)
    have w: "Write k E h x os prefix off = Some (os @ t)"
      using Write_appends [of k E h x os prefix off] Some by simp
    have "WriteContents k E h (x # xs) os prefix off = Some out
        \<longleftrightarrow> WriteContents k E h xs (os @ t) prefix off = Some out"
      using w by simp
    also have "\<dots> \<longleftrightarrow> (\<exists>texts. length texts = length xs
        \<and> (\<forall>i<length xs. Write k E h (xs ! i) [] prefix off = Some (texts ! i))
        \<and> out = (os @ t) @ concat texts)"
      by (rule Cons.IH)
    also have "\<dots> \<longleftrightarrow> (\<exists>texts. length texts = length (x # xs)
        \<and> (\<forall>i<length (x # xs). Write k E h ((x # xs) ! i) [] prefix off = Some (texts ! i))
        \<and> out = os @ concat texts)" (is "?L \<longleftrightarrow> ?R")
    proof
      assume ?L
      then obtain texts where l: "length texts = length xs"
        and e: "\<forall>i<length xs. Write k E h (xs ! i) [] prefix off = Some (texts ! i)"
        and o: "out = (os @ t) @ concat texts" by blast
      have "\<forall>i<length (x # xs). Write k E h ((x # xs) ! i) [] prefix off = Some ((t # texts) ! i)"
        using e Some by (auto simp: nth_Cons split: nat.splits)
      with l o show ?R by (intro exI [of _ "t # texts"]) simp
    next
      assume ?R
      then obtain texts where l: "length texts = length (x # xs)"
        and e: "\<forall>i<length (x # xs). Write k E h ((x # xs) ! i) [] prefix off = Some (texts ! i)"
        and o: "out = os @ concat texts" by blast
      from l obtain t' ts where ts: "texts = t' # ts" by (cases texts) auto
      from e [rule_format, of 0] ts Some have t': "t' = t" by simp
      have "\<forall>i<length xs. Write k E h (xs ! i) [] prefix off = Some (ts ! i)"
      proof (intro allI impI)
        fix i assume "i < length xs"
        with e [rule_format, of "Suc i"] ts show "Write k E h (xs ! i) [] prefix off = Some (ts ! i)"
          by simp
      qed
      with l o ts t' show ?L by (intro exI [of _ ts]) simp
    qed
    finally show ?thesis .
  qed
qed


lemma same_declared_refl: "same_declared e e"
  by (cases "derived e") (simp_all add: same_declared_def)

lemma AsString_same_declared:
  assumes "objs h a = Some e" and "objs h' a = Some e'" and "same_declared e e'"
    and "\<not> IsScope e"
    and "double_vars h' = double_vars h" and "string_vars h' = string_vars h"
  shows "AsString E h' a = AsString E h a"
  using assms
  by (cases "derived e") (simp_all add: AsString_def same_declared_def IsScope_def)

lemma ConfigEntry_Write_same_declared:
  assumes "objs h a = Some e" and "objs h' a = Some e'" and "same_declared e e'"
    and "\<not> IsScope e"
    and "double_vars h' = double_vars h" and "string_vars h' = string_vars h"
  shows "ConfigEntry_Write E h' a e' os prefix off = ConfigEntry_Write E h a e os prefix off"
proof -
  have "ConfigEntry.truncate e' = ConfigEntry.truncate e"
    using assms(3) by (simp add: same_declared_def)
  from truncate_fields [OF this] AsString_same_declared [OF assms]
  show ?thesis by (simp add: ConfigEntry_Write_def cong: outcome.case_cong)
qed

lemma WriteContents_same_declared_step:
  assumes "\<And>x os out. Write k E h x os prefix off = Some out
      \<Longrightarrow> Write k E h' x os prefix off = Some out"
  shows "WriteContents k E h xs os prefix off = Some out
      \<Longrightarrow> WriteContents k E h' xs os prefix off = Some out"
proof (induction xs arbitrary: os)
  case Nil
  then show ?case by simp
next
  case (Cons x xs)
  from Cons.prems obtain os1 where w: "Write k E h x os prefix off = Some os1"
    and r: "WriteContents k E h xs os1 prefix off = Some out"
    by (auto split: option.splits)
  from assms [OF w] Cons.IH [OF r] show ?case by simp
qed

lemma Write_same_declared:
  assumes rel: "\<And>a e. objs h a = Some e \<Longrightarrow> \<exists>e'. objs h' a = Some e' \<and> same_declared e e'"
    and dv: "double_vars h' = double_vars h" and sv: "string_vars h' = string_vars h"
  shows "Write k E h x os prefix off = Some out \<Longrightarrow> Write k E h' x os prefix off = Some out"
proof (induction k arbitrary: x os prefix out)
  case 0
  then show ?case by simp
next
  case (Suc k)
  from Suc.prems obtain e where o: "objs h x = Some e"
    by (auto split: option.splits)
  from rel [OF o] obtain e' where o': "objs h' x = Some e'" and sd: "same_declared e e'"
    by blast
  have tr: "ConfigEntry.truncate e' = ConfigEntry.truncate e"
    using sd by (simp add: same_declared_def)
  show ?case
  proof (cases "derived e")
    case (ConfigScope el bl em ty)
    with sd obtain bl' em' ty' where d': "derived e' = ConfigScope el bl' em' ty'"
      by (auto simp: same_declared_def)
    let ?os1 = "os @ prefix @ name e @ '' = { ''
                     @ (if desc e \<noteq> []
                        then pad (length prefix + length (name e) + 5) off
                          @ ''// '' @ desc e
                        else [])
                     @ endl"
    from Suc.prems o ConfigScope obtain body where
      b: "WriteContents k E h el ?os1 (prefix @ ''  '') off = Some body"
      and out: "out = body @ prefix @ ''}'' @ endl"
      by (auto split: option.splits)
    have b': "WriteContents k E h' el ?os1 (prefix @ ''  '') off = Some body"
      by (rule WriteContents_same_declared_step [OF _ b]) (rule Suc.IH)
    have "Write (Suc k) E h' x os prefix off
        = (case WriteContents k E h' el ?os1 (prefix @ ''  '') off of
             None \<Rightarrow> None
           | Some os' \<Rightarrow> Some (os' @ prefix @ ''}'' @ endl))"
      using o' d' truncate_fields [OF tr] by simp
    then show ?thesis unfolding b' out by simp
  next
    case (ConfigEntry_Linked_double v)
    then have ns: "\<not> IsScope e" by (simp add: IsScope_def)
    from sd ConfigEntry_Linked_double have "derived e' = ConfigEntry_Linked_double v"
      by (simp add: same_declared_def)
    with Suc.prems o o' ConfigEntry_Linked_double
      ConfigEntry_Write_same_declared [OF o o' sd ns dv sv]
    show ?thesis by simp
  next
    case (ConfigEntry_Linked_string v)
    then have ns: "\<not> IsScope e" by (simp add: IsScope_def)
    from sd ConfigEntry_Linked_string have "derived e' = ConfigEntry_Linked_string v"
      by (simp add: same_declared_def)
    with Suc.prems o o' ConfigEntry_Linked_string
      ConfigEntry_Write_same_declared [OF o o' sd ns dv sv]
    show ?thesis by simp
  next
    case (ConfigEntry_DoubleVar v)
    then have ns: "\<not> IsScope e" by (simp add: IsScope_def)
    from sd ConfigEntry_DoubleVar have "derived e' = ConfigEntry_DoubleVar v"
      by (simp add: same_declared_def)
    with Suc.prems o o' ConfigEntry_DoubleVar
      ConfigEntry_Write_same_declared [OF o o' sd ns dv sv]
    show ?thesis by simp
  next
    case (ConfigEntry_StringVar v)
    then have ns: "\<not> IsScope e" by (simp add: IsScope_def)
    from sd ConfigEntry_StringVar have "derived e' = ConfigEntry_StringVar v"
      by (simp add: same_declared_def)
    with Suc.prems o o' ConfigEntry_StringVar
      ConfigEntry_Write_same_declared [OF o o' sd ns dv sv]
    show ?thesis by simp
  qed
qed

lemma AddBuiltin_same_declared:
  assumes "AddBuiltin T n h this = Some (b, h')" and "objs h (next_ptr h) = None"
    and o: "objs h this = Some e"
  shows "(\<forall>a e. objs h a = Some e \<longrightarrow> (\<exists>e'. objs h' a = Some e' \<and> same_declared e e'))
    \<and> double_vars h' = double_vars h \<and> string_vars h' = string_vars h
    \<and> b = next_ptr h \<and> objs h' b = Some (T n)
    \<and> (\<exists>e'. objs h' this = Some e' \<and> IsScope e' \<and> entry_map (derived e') n = Some b)"
proof -
  from assms have ne: "this \<noteq> next_ptr h" by auto
  with assms obtain el bl em ty where d: "derived e = ConfigScope el bl em ty"
    by (auto simp: AddBuiltin_def NewPtr_def split: option.splits derived.splits if_splits)
  from assms(1) o d ne have h': "h' = h\<lparr>objs := (objs h)(next_ptr h \<mapsto> T n,
      this \<mapsto> e\<lparr>derived := ConfigScope el (bl @ [next_ptr h]) (em(n \<mapsto> next_ptr h)) ty\<rparr>),
      next_ptr := Suc (next_ptr h)\<rparr>" and b: "b = next_ptr h"
    by (auto simp: AddBuiltin_def NewPtr_def)
  have "\<exists>e'. objs h' a = Some e' \<and> same_declared x e'" if "objs h a = Some x" for a x
  proof (cases "a = this")
    case True
    with that o d h' show ?thesis
      by (simp add: same_declared_def ConfigEntry.truncate_def)
  next
    case False
    with that assms(2) h' have "objs h' a = Some x" by auto
    then show ?thesis by (simp add: same_declared_refl)
  qed
  moreover have "objs h' b = Some (T n)" using h' b ne by simp
  moreover have "\<exists>e'. objs h' this = Some e' \<and> IsScope e' \<and> entry_map (derived e') n = Some b"
    using h' b by (simp add: IsScope_def)
  ultimately show ?thesis using h' b by simp
qed


lemma WriteContents_returns:
  assumes step: "\<And>x os. within_depth k h x \<Longrightarrow> \<exists>out. Write k E h x os prefix off = Some out"
  shows "\<forall>x\<in>set xs. within_depth k h x
    \<Longrightarrow> \<exists>out. WriteContents k E h xs os prefix off = Some out"
proof (induction xs arbitrary: os)
  case Nil
  show ?case by simp
next
  case (Cons x xs)
  from step [of x os] Cons.prems obtain os1 where "Write k E h x os prefix off = Some os1"
    by auto
  moreover from Cons.IH [of os1] Cons.prems
  obtain out where "WriteContents k E h xs os1 prefix off = Some out" by auto
  ultimately show ?case by simp
qed

lemma Write_returns:
  "within_depth k h x \<Longrightarrow> \<exists>out. Write k E h x os prefix off = Some out"
proof (induction k arbitrary: x os prefix)
  case 0
  then show ?case by simp
next
  case (Suc k)
  from Suc.prems obtain e where o: "objs h x = Some e"
    by (auto split: option.splits)
  show ?case
  proof (cases "IsScope e")
    case True
    then obtain el bl em ty where d: "derived e = ConfigScope el bl em ty"
      by (cases "derived e") (simp_all add: IsScope_def)
    with Suc.prems o have "\<forall>c\<in>set el. within_depth k h c" by simp
    from WriteContents_returns [OF Suc.IH this]
    obtain body where "WriteContents k E h el
        (os @ prefix @ name e @ '' = { ''
              @ (if desc e \<noteq> []
                 then pad (length prefix + length (name e) + 5) off @ ''// '' @ desc e
                 else [])
              @ endl) (prefix @ ''  '') off = Some body" by blast
    with o d have "Write (Suc k) E h x os prefix off = Some (body @ prefix @ ''}'' @ endl)"
      by simp
    then show ?thesis ..
  next
    case False
    from AsString_entry [OF o False, of E] obtain str where "AsString E h x = Returned str"
      by blast
    with Write_entry [OF o False] show ?thesis
      by (simp add: ConfigEntry_Write_def)
  qed
qed

lemma Write_scope_shape:
  assumes "objs h this = Some e" and "derived e = ConfigScope el bl em ty"
  shows "(\<forall>out. Write (Suc k) E h this os prefix off = Some out \<longleftrightarrow>
        (\<exists>texts. length texts = length el
          \<and> (\<forall>i<length el. Write k E h (el ! i) [] (prefix @ ''  '') off = Some (texts ! i))
          \<and> out = os @ prefix @ name e @ '' = { ''
              @ (if desc e \<noteq> []
                 then pad (length prefix + length (name e) + 5) off @ ''// '' @ desc e
                 else [])
              @ endl @ concat texts @ prefix @ ''}'' @ endl))
    \<and> (\<forall>out T n b h'.
          Write (Suc k) E h this os prefix off = Some out
          \<and> objs h (next_ptr h) = None
          \<and> AddBuiltin T n h this = Some (b, h')
          \<longrightarrow> Write (Suc k) E h' this os prefix off = Some out
              \<and> LookupEntry h' this n False = Some (Some b)
              \<and> objs h' b = Some (T n))"
proof (rule conjI)
  let ?os1 = "os @ prefix @ name e @ '' = { ''
              @ (if desc e \<noteq> []
                 then pad (length prefix + length (name e) + 5) off @ ''// '' @ desc e
                 else [])
              @ endl"
  have w: "Write (Suc k) E h this os prefix off
      = (case WriteContents k E h el ?os1 (prefix @ ''  '') off of
           None \<Rightarrow> None
         | Some os' \<Rightarrow> Some (os' @ prefix @ ''}'' @ endl))"
    using assms by simp
  have "Write (Suc k) E h this os prefix off = Some out \<longleftrightarrow>
      (\<exists>texts. length texts = length el
          \<and> (\<forall>i<length el. Write k E h (el ! i) [] (prefix @ ''  '') off = Some (texts ! i))
          \<and> out = ?os1 @ concat texts @ prefix @ ''}'' @ endl)" for out
  proof -
    have "Write (Suc k) E h this os prefix off = Some out
        \<longleftrightarrow> (\<exists>body. WriteContents k E h el ?os1 (prefix @ ''  '') off = Some body
              \<and> out = body @ prefix @ ''}'' @ endl)"
      unfolding w by (auto split: option.splits)
    also have "\<dots> \<longleftrightarrow> (\<exists>texts. length texts = length el
          \<and> (\<forall>i<length el. Write k E h (el ! i) [] (prefix @ ''  '') off = Some (texts ! i))
          \<and> out = ?os1 @ concat texts @ prefix @ ''}'' @ endl)"
      unfolding WriteContents_concat by auto
    finally show ?thesis .
  qed
  then show "\<forall>out. Write (Suc k) E h this os prefix off = Some out \<longleftrightarrow>
        (\<exists>texts. length texts = length el
          \<and> (\<forall>i<length el. Write k E h (el ! i) [] (prefix @ ''  '') off = Some (texts ! i))
          \<and> out = os @ prefix @ name e @ '' = { ''
              @ (if desc e \<noteq> []
                 then pad (length prefix + length (name e) + 5) off @ ''// '' @ desc e
                 else [])
              @ endl @ concat texts @ prefix @ ''}'' @ endl)"
    by simp
next
  have "Write (Suc k) E h' this os prefix off = Some out
      \<and> LookupEntry h' this n False = Some (Some b)
      \<and> objs h' b = Some (T n)"
    if w: "Write (Suc k) E h this os prefix off = Some out"
      and fr: "objs h (next_ptr h) = None"
      and ab: "AddBuiltin T n h this = Some (b, h')" for out T n b h'
  proof -
    note sd = AddBuiltin_same_declared [OF ab fr assms(1)]
    from sd have rel: "\<And>a x. objs h a = Some x
        \<Longrightarrow> \<exists>x'. objs h' a = Some x' \<and> same_declared x x'"
      and dv: "double_vars h' = double_vars h" and sv: "string_vars h' = string_vars h"
      by blast+
    have "Write (Suc k) E h' this os prefix off = Some out"
      by (rule Write_same_declared [OF rel dv sv w])
    moreover from sd obtain e' where "objs h' this = Some e'" "IsScope e'"
      "entry_map (derived e') n = Some b" by blast
    then have "LookupEntry h' this n False = Some (Some b)"
      by (simp add: LookupEntry_local)
    moreover from sd have "objs h' b = Some (T n)" by blast
    ultimately show ?thesis by simp
  qed
  then show "\<forall>out T n b h'.
          Write (Suc k) E h this os prefix off = Some out
          \<and> objs h (next_ptr h) = None
          \<and> AddBuiltin T n h this = Some (b, h')
          \<longrightarrow> Write (Suc k) E h' this os prefix off = Some out
              \<and> LookupEntry h' this n False = Some (Some b)
              \<and> objs h' b = Some (T n)"
    by blast
qed

text \<open>
  C8. \<open>Write\<close> on a scope returns whenever the entries below it form a tree within
  the depth given as fuel; it returns exactly when each declared child writes, and its
  output is then the text so far, the opener \<open>name = { \<close> with the aligned comment
  and a line feed, the texts of the children of \<open>entry_list\<close> in order, each written
  with two more spaces of prefix, and the prefix with the closing brace. Nothing of
  \<open>builtin_list\<close> is written: after \<open>AddBuiltin\<close> the scope writes the same text as
  before, while the new built-in child is found by lookup.
\<close>

theorem Write_scope_declared_children_only:
  assumes "objs h this = Some e" and "derived e = ConfigScope el bl em ty"
  shows "(within_depth (Suc k) h this
        \<longrightarrow> (\<exists>out. Write (Suc k) E h this os prefix off = Some out))
    \<and> (\<forall>out. Write (Suc k) E h this os prefix off = Some out \<longleftrightarrow>
        (\<exists>texts. length texts = length el
          \<and> (\<forall>i<length el. Write k E h (el ! i) [] (prefix @ ''  '') off = Some (texts ! i))
          \<and> out = os @ prefix @ name e @ '' = { ''
              @ (if desc e \<noteq> []
                 then pad (length prefix + length (name e) + 5) off @ ''// '' @ desc e
                 else [])
              @ endl @ concat texts @ prefix @ ''}'' @ endl))
    \<and> (\<forall>out T n b h'.
          Write (Suc k) E h this os prefix off = Some out
          \<and> objs h (next_ptr h) = None
          \<and> AddBuiltin T n h this = Some (b, h')
          \<longrightarrow> Write (Suc k) E h' this os prefix off = Some out
              \<and> LookupEntry h' this n False = Some (Some b)
              \<and> objs h' b = Some (T n))"
proof (rule conjI)
  show "within_depth (Suc k) h this
        \<longrightarrow> (\<exists>out. Write (Suc k) E h this os prefix off = Some out)"
    by (rule impI) (rule Write_returns)
qed (rule Write_scope_shape [OF assms])

lemma within_depth_chain_x: "within_depth (Suc 2) (snd chain_x) 0"
  by (simp add: chain_defs decl_defs ctor_defs eval_nat_numeral)

lemma chain_x_written:
  "Write (Suc 2) emp_example (snd chain_x) 0 [] [] 12
     = Some (''A = { '' @ endl @ ''  B = { '' @ endl @ ''    C = { '' @ endl @ ''    }'' @ endl
         @ ''  }'' @ endl @ ''  x = <double>;'' @ endl @ ''}'' @ endl)"
  by (simp add: chain_defs decl_defs ctor_defs eval_nat_numeral ConfigEntry_Write_def
      AsString_def emp_example_def)

theorem Write_scope_declared_children_only_witness:
  "within_depth (Suc 2) (snd chain_x) 0
   \<and> objs (snd chain_x) 0 = Some (ConfigScope_ctor emp_example ''A'' [] None []
      \<lparr>derived := ConfigScope [1, 3] [] [''B'' \<mapsto> 1, ''x'' \<mapsto> 3] []\<rparr>)
   \<and> Write (Suc 2) emp_example (snd chain_x) 0 [] [] 12
       = Some (''A = { '' @ endl @ ''  B = { '' @ endl @ ''    C = { '' @ endl @ ''    }'' @ endl
           @ ''  }'' @ endl @ ''  x = <double>;'' @ endl @ ''}'' @ endl)
   \<and> objs (snd chain_x) (next_ptr (snd chain_x)) = None
   \<and> AddBuiltin (\<lambda>n. ConfigEntry_DoubleVar_ctor emp_example n 3 ''circle'' (Some 0))
        ''pi'' (snd chain_x) 0 = Some (4, snd builtin_ex)
   \<and> Write (Suc 2) emp_example (snd builtin_ex) 0 [] [] 12
       = Some (''A = { '' @ endl @ ''  B = { '' @ endl @ ''    C = { '' @ endl @ ''    }'' @ endl
           @ ''  }'' @ endl @ ''  x = <double>;'' @ endl @ ''}'' @ endl)
   \<and> LookupEntry (snd builtin_ex) 0 ''pi'' False = Some (Some 4)
   \<and> objs (snd builtin_ex) 4
       = Some (ConfigEntry_DoubleVar_ctor emp_example ''pi'' 3 ''circle'' (Some 0))"
proof -
  let ?h = "snd chain_x"
  let ?A = "ConfigScope_ctor emp_example ''A'' [] None []
      \<lparr>derived := ConfigScope [1, 3] [] [''B'' \<mapsto> 1, ''x'' \<mapsto> 3] []\<rparr>"
  let ?T = "\<lambda>n. ConfigEntry_DoubleVar_ctor emp_example n 3 ''circle'' (Some 0)"
  let ?out = "''A = { '' @ endl @ ''  B = { '' @ endl @ ''    C = { '' @ endl @ ''    }'' @ endl
           @ ''  }'' @ endl @ ''  x = <double>;'' @ endl @ ''}'' @ endl"
  have oA: "objs ?h 0 = Some ?A" by (rule chain_x_objs)
  have dA: "derived ?A = ConfigScope [1, 3] [] [''B'' \<mapsto> 1, ''x'' \<mapsto> 3] []" by simp
  have w: "Write (Suc 2) emp_example ?h 0 [] [] 12 = Some ?out" by (rule chain_x_written)
  have nx: "next_ptr ?h = 4"
    by (simp add: chain_defs decl_defs ctor_defs)
  have fr: "objs ?h (next_ptr ?h) = None"
    by (simp add: chain_defs decl_defs ctor_defs)
  have "AddBuiltin ?T ''pi'' ?h 0 \<noteq> None"
    using oA by (simp add: AddBuiltin_def NewPtr_def nx ctor_defs)
  moreover have "map_option fst (AddBuiltin ?T ''pi'' ?h 0) = Some 4"
    using oA by (simp add: AddBuiltin_def NewPtr_def nx ctor_defs)
  ultimately have ab: "AddBuiltin ?T ''pi'' ?h 0 = Some (4, snd builtin_ex)"
    by (auto simp: builtin_ex_def)
  from Write_scope_declared_children_only
    [OF oA dA, of 2 emp_example "[]" "[]" 12, THEN conjunct2, THEN conjunct2] w fr ab
  have "Write (Suc 2) emp_example (snd builtin_ex) 0 [] [] 12 = Some ?out
      \<and> LookupEntry (snd builtin_ex) 0 ''pi'' False = Some (Some 4)
      \<and> objs (snd builtin_ex) 4 = Some (?T ''pi'')"
    by blast
  moreover have "\<exists>out. Write (Suc 2) emp_example ?h 0 [] [] 12 = Some out"
    using Write_scope_declared_children_only
      [OF oA dA, of 2 emp_example "[]" "[]" 12, THEN conjunct1] within_depth_chain_x
    by (rule mp)
  ultimately show ?thesis
    using within_depth_chain_x oA w fr ab by (simp del: within_depth.simps Write.simps)
qed

subsection \<open>Cloning a scope\<close>

lemma extends_refl: "extends h h"
  by (simp add: extends_def)

lemma extends_trans: "extends h h1 \<Longrightarrow> extends h1 h2 \<Longrightarrow> extends h h2"
  by (auto simp: extends_def)

lemma copy_of_later:
  "copy_of h x h1 c \<Longrightarrow> extends h1 h' \<Longrightarrow> c < next_ptr h1 \<Longrightarrow> copy_of h x h' c"
  by (auto simp: copy_of_def extends_def)

lemma copy_of_earlier:
  "extends h h1 \<Longrightarrow> x < next_ptr h \<Longrightarrow> copy_of h1 x h' c \<Longrightarrow> copy_of h x h' c"
  by (auto simp: copy_of_def extends_def)

lemma Clone_entries_props:
  assumes step: "\<And>h x c h'. heap_ok h \<Longrightarrow> Clone k h x = Some (c, h')
      \<Longrightarrow> c = next_ptr h \<and> c < next_ptr h' \<and> extends h h' \<and> heap_ok h' \<and> copy_of h x h' c"
  shows "heap_ok h \<Longrightarrow> \<forall>x\<in>set xs. x < next_ptr h
    \<Longrightarrow> Clone_entries k h xs acc m = Some (acc', m', h')
    \<Longrightarrow> extends h h' \<and> heap_ok h'
        \<and> (\<exists>ps. acc' = acc @ ps \<and> length ps = length xs
              \<and> (\<forall>i<length xs. next_ptr h \<le> ps ! i \<and> ps ! i < next_ptr h'
                    \<and> copy_of h (xs ! i) h' (ps ! i)))"
proof (induction xs arbitrary: h acc m)
  case Nil
  then show ?case by (simp add: extends_refl)
next
  case (Cons x xs)
  from Cons.prems(3) obtain p h1 ex where
    c: "Clone k h x = Some (p, h1)" and ox: "objs h1 x = Some ex"
    and r: "Clone_entries k h1 xs (acc @ [p]) (m(name ex \<mapsto> p)) = Some (acc', m', h')"
    by (auto split: option.splits)
  from step [OF Cons.prems(1) c] have p: "p = next_ptr h" and plt: "p < next_ptr h1"
    and e1: "extends h h1" and ok1: "heap_ok h1" and cp: "copy_of h x h1 p"
    by auto
  have below: "\<forall>y\<in>set xs. y < next_ptr h1"
    using Cons.prems(2) e1 by (auto simp: extends_def)
  from Cons.IH [OF ok1 below r] obtain ps where
    e2: "extends h1 h'" and ok': "heap_ok h'" and acc': "acc' = (acc @ [p]) @ ps"
    and len: "length ps = length xs"
    and each: "\<forall>i<length xs. next_ptr h1 \<le> ps ! i \<and> ps ! i < next_ptr h'
                    \<and> copy_of h1 (xs ! i) h' (ps ! i)"
    by blast
  have n12: "next_ptr h1 \<le> next_ptr h'" using e2 by (simp add: extends_def)
  have n01: "next_ptr h \<le> next_ptr h1" using e1 by (simp add: extends_def)
  have "next_ptr h \<le> (p # ps) ! i \<and> (p # ps) ! i < next_ptr h'
      \<and> copy_of h ((x # xs) ! i) h' ((p # ps) ! i)" if "i < length (x # xs)" for i
  proof (cases i)
    case 0
    from copy_of_later [OF cp e2 plt] p plt n12 0 show ?thesis by simp
  next
    case (Suc j)
    with that have j: "j < length xs" by simp
    with Cons.prems(2) have "xs ! j < next_ptr h" by simp
    from copy_of_earlier [OF e1 this] each j n01 Suc show ?thesis by auto
  qed
  with extends_trans [OF e1 e2] ok' acc' len show ?case
    by (intro conjI exI [of _ "p # ps"]) simp_all
qed

lemma heap_ok_reserve: "heap_ok h \<Longrightarrow> heap_ok (h\<lparr>next_ptr := Suc (next_ptr h)\<rparr>)"
  by (fastforce simp: heap_ok_def)

lemma heap_ok_NewPtr:
  "heap_ok h \<Longrightarrow> children e = [] \<Longrightarrow> heap_ok (snd (NewPtr e h))"
  by (fastforce simp: heap_ok_def NewPtr_def)

lemma children_not_scope: "\<not> IsScope e \<Longrightarrow> children e = []"
  by (cases "derived e") (simp_all add: IsScope_def children_def)

lemma entry_eqI:
  fixes e e' :: entry
  shows "ConfigEntry.truncate e' = ConfigEntry.truncate e \<Longrightarrow> derived e' = derived e \<Longrightarrow> e' = e"
  by (cases e, cases e') (simp add: ConfigEntry.truncate_def)


lemma Clone_props:
  "heap_ok h \<Longrightarrow> Clone k h x = Some (c, h')
   \<Longrightarrow> c = next_ptr h \<and> c < next_ptr h' \<and> extends h h' \<and> heap_ok h' \<and> copy_of h x h' c
       \<and> (\<forall>ex el bl em ty. objs h x = Some ex \<and> derived ex = ConfigScope el bl em ty \<longrightarrow>
            (\<exists>ec el' bl' em'. objs h' c = Some ec \<and> derived ec = ConfigScope el' bl' em' []
               \<and> length el' = length el \<and> length bl' = length bl
               \<and> (\<forall>i<length el. c < el' ! i \<and> copy_of h (el ! i) h' (el' ! i))
               \<and> (\<forall>i<length bl. c < bl' ! i \<and> copy_of h (bl ! i) h' (bl' ! i))))"
proof (induction k arbitrary: h x c h')
  case 0
  then show ?case by simp
next
  case (Suc k)
  note ok = Suc.prems(1)
  from Suc.prems(2) obtain ex where ox: "objs h x = Some ex"
    by (auto split: option.splits)
  from ok ox have xlt: "x < next_ptr h" by (auto simp: heap_ok_def)
  have step: "\<And>h x c h'. heap_ok h \<Longrightarrow> Clone k h x = Some (c, h')
      \<Longrightarrow> c = next_ptr h \<and> c < next_ptr h' \<and> extends h h' \<and> heap_ok h' \<and> copy_of h x h' c"
    using Suc.IH by blast
  show ?case
  proof (cases "IsScope ex")
    case False
    then have c: "(c, h') = NewPtr ex h"
      using Suc.prems(2) ox by (cases "derived ex") (simp_all add: IsScope_def)
    then have c1: "c = next_ptr h"
      and h': "h' = h\<lparr>objs := (objs h)(next_ptr h \<mapsto> ex), next_ptr := Suc (next_ptr h)\<rparr>"
      by (simp_all add: NewPtr_def)
    have "heap_ok h'"
      using heap_ok_NewPtr [OF ok children_not_scope [OF False]] c [symmetric] by simp
    moreover have "extends h h'" using h' by (simp add: extends_def)
    moreover have "copy_of h x h' c"
      using ox False c1 h' by (simp add: copy_of_def)
    moreover have "\<nexists>el bl em ty. derived ex = ConfigScope el bl em ty"
      using False by (auto simp: IsScope_def)
    ultimately show ?thesis using c1 h' ox by auto
  next
    case True
    then obtain el bl em ty where d: "derived ex = ConfigScope el bl em ty"
      by (cases "derived ex") (simp_all add: IsScope_def)
    let ?N = "next_ptr h"
    let ?h0 = "h\<lparr>next_ptr := Suc ?N\<rparr>"
    from Suc.prems(2) ox d obtain el' em1 h1 bl' em2 h2 where
      r1: "Clone_entries k ?h0 el [] Map.empty = Some (el', em1, h1)"
      and r2: "Clone_entries k h1 bl [] em1 = Some (bl', em2, h2)"
      and c: "c = ?N"
      and h': "h' = h2\<lparr>objs := (objs h2)(?N \<mapsto> ex\<lparr>derived := ConfigScope el' bl' em2 []\<rparr>)\<rparr>"
      by (auto split: option.splits)
    have ok0: "heap_ok ?h0" by (rule heap_ok_reserve [OF ok])
    have ch: "children ex = el @ bl" using d by (simp add: children_def)
    have el0: "\<forall>y\<in>set el. y < next_ptr ?h0" and bl0: "\<forall>y\<in>set bl. y < ?N"
      using ok ox ch by (auto simp: heap_ok_def less_Suc_eq)
    from Clone_entries_props [OF step ok0 el0 r1] obtain ps where
      e01: "extends ?h0 h1" and ok1: "heap_ok h1" and ps: "el' = [] @ ps"
      and lel: "length ps = length el"
      and eachel: "\<forall>i<length el. next_ptr ?h0 \<le> ps ! i \<and> ps ! i < next_ptr h1
                    \<and> copy_of ?h0 (el ! i) h1 (ps ! i)"
      by blast
    have n01: "Suc ?N \<le> next_ptr h1" using e01 by (simp add: extends_def)
    have bl1: "\<forall>y\<in>set bl. y < next_ptr h1" using bl0 n01 by auto
    from Clone_entries_props [OF step ok1 bl1 r2] obtain qs where
      e12: "extends h1 h2" and ok2: "heap_ok h2" and qs: "bl' = [] @ qs"
      and lbl: "length qs = length bl"
      and eachbl: "\<forall>i<length bl. next_ptr h1 \<le> qs ! i \<and> qs ! i < next_ptr h2
                    \<and> copy_of h1 (bl ! i) h2 (qs ! i)"
      by blast
    have n12: "next_ptr h1 \<le> next_ptr h2" using e12 by (simp add: extends_def)
    have nx': "next_ptr h' = next_ptr h2" using h' by simp
    have ext: "extends h h'"
      using e01 e12 h' by (auto simp: extends_def)
    have keep: "objs h' a = objs h2 a" if "a \<noteq> ?N" for a
      using that h' by simp
    have okh': "heap_ok h'"
      unfolding heap_ok_def
    proof (intro allI impI)
      fix a e assume a: "objs h' a = Some e"
      show "a < next_ptr h' \<and> (\<forall>p\<in>set (children e). p < next_ptr h')"
      proof (cases "a = ?N")
        case True
        with a h' have e: "e = ex\<lparr>derived := ConfigScope el' bl' em2 []\<rparr>" by simp
        have "\<forall>p\<in>set (el' @ bl'). p < next_ptr h2"
          using ps qs lel lbl eachel eachbl n12
          by (fastforce simp: in_set_conv_nth)
        with e True n01 n12 nx' show ?thesis by (simp add: children_def)
      next
        case False
        with a keep have "objs h2 a = Some e" by simp
        with ok2 nx' show ?thesis by (simp add: heap_ok_def)
      qed
    qed
    have cpx: "copy_of h x h' c"
      using ox c h' True
      by (simp add: copy_of_def ConfigEntry.truncate_def IsScope_def)
    have cel: "c < el' ! i \<and> copy_of h (el ! i) h' (el' ! i)" if "i < length el" for i
    proof -
      from eachel that ps have b: "Suc ?N \<le> el' ! i" "el' ! i < next_ptr h1"
        and cp: "copy_of ?h0 (el ! i) h1 (el' ! i)" by simp_all
      from copy_of_later [OF cp e12 b(2)] have "copy_of ?h0 (el ! i) h2 (el' ! i)" .
      then have "copy_of h (el ! i) h' (el' ! i)"
        using b(1) h' by (auto simp: copy_of_def)
      with b c show ?thesis by simp
    qed
    have cbl: "c < bl' ! i \<and> copy_of h (bl ! i) h' (bl' ! i)" if "i < length bl" for i
    proof -
      from eachbl that qs have b: "next_ptr h1 \<le> bl' ! i" "bl' ! i < next_ptr h2"
        and cp: "copy_of h1 (bl ! i) h2 (bl' ! i)" by simp_all
      from bl0 that have "bl ! i < ?N" by simp
      then have "bl ! i < next_ptr ?h0" by simp
      from copy_of_earlier [OF e01 this cp] have "copy_of ?h0 (bl ! i) h2 (bl' ! i)" .
      then have "copy_of h (bl ! i) h' (bl' ! i)"
        using b(1) n01 h' by (auto simp: copy_of_def)
      with b n01 c show ?thesis by simp
    qed
    have "objs h' c = Some (ex\<lparr>derived := ConfigScope el' bl' em2 []\<rparr>)"
      using c h' by simp
    with ox d cel cbl lel lbl ps qs
    have "\<forall>ex0 el0 bl0 em0 ty0. objs h x = Some ex0 \<and> derived ex0 = ConfigScope el0 bl0 em0 ty0 \<longrightarrow>
            (\<exists>ec el' bl' em'. objs h' c = Some ec \<and> derived ec = ConfigScope el' bl' em' []
               \<and> length el' = length el0 \<and> length bl' = length bl0
               \<and> (\<forall>i<length el0. c < el' ! i \<and> copy_of h (el0 ! i) h' (el' ! i))
               \<and> (\<forall>i<length bl0. c < bl' ! i \<and> copy_of h (bl0 ! i) h' (bl' ! i)))"
      by auto
    with c nx' n01 n12 ext okh' cpx show ?thesis by simp
  qed
qed


lemma values_cong:
  assumes "objs h'' q = objs h q" and "double_vars h'' = double_vars h"
    and "string_vars h'' = string_vars h"
  shows "AsDouble E h'' q = AsDouble E h q \<and> AsString E h'' q = AsString E h q"
  using assms by (simp add: AsDouble_def AsString_def split: option.splits derived.splits)

lemma copy_of_values:
  assumes "copy_of h x h' c" and "extends h h'"
  shows "AsDouble E h' c = AsDouble E h x \<and> AsString E h' c = AsString E h x"
proof -
  from assms(1) obtain ex ec where ox: "objs h x = Some ex" and oc: "objs h' c = Some ec"
    and sc: "IsScope ex \<longrightarrow> IsScope ec" and ns: "\<not> IsScope ex \<longrightarrow> ec = ex"
    by (auto simp: copy_of_def)
  from assms(2) have dv: "double_vars h' = double_vars h" and sv: "string_vars h' = string_vars h"
    by (simp_all add: extends_def)
  show ?thesis
  proof (cases "IsScope ex")
    case True
    with sc have "IsScope ec" by simp
    with True ox oc show ?thesis
      by (cases "derived ex"; cases "derived ec")
         (simp_all add: IsScope_def AsDouble_def AsString_def)
  next
    case False
    with ns have "ec = ex" by simp
    with ox oc dv sv show ?thesis
      by (simp add: AsDouble_def AsString_def split: derived.splits)
  qed
qed

lemma SetValue_own_frame:
  assumes "holds_own_value h p" and "SetValue E h p v = Returned h''" and "q \<noteq> p"
  shows "objs h'' q = objs h q \<and> double_vars h'' = double_vars h
    \<and> string_vars h'' = string_vars h"
  using assms
  by (auto simp: holds_own_value_def SetValue_def split: option.splits derived.splits)

lemma SetString_own_frame:
  assumes "holds_own_value h p" and "SetString E h p v = Returned h''" and "q \<noteq> p"
  shows "objs h'' q = objs h q \<and> double_vars h'' = double_vars h
    \<and> string_vars h'' = string_vars h"
  using assms
  by (auto simp: holds_own_value_def SetString_def split: option.splits derived.splits)

lemma own_value_independent:
  assumes "q \<noteq> p" and "holds_own_value h p"
  shows "(\<forall>v h''. SetValue E h p v = Returned h''
            \<longrightarrow> AsDouble E h'' q = AsDouble E h q \<and> AsString E h'' q = AsString E h q)
       \<and> (\<forall>t h''. SetString E h p t = Returned h''
            \<longrightarrow> AsDouble E h'' q = AsDouble E h q \<and> AsString E h'' q = AsString E h q)"
  using SetValue_own_frame [OF assms(2) _ assms(1)] SetString_own_frame [OF assms(2) _ assms(1)]
    values_cong
  by blast

lemma within_depth_extends:
  "within_depth k h a \<Longrightarrow> heap_ok h \<Longrightarrow> extends h h' \<Longrightarrow> within_depth k h' a"
proof (induction k arbitrary: a)
  case 0
  then show ?case by simp
next
  case (Suc k)
  from Suc.prems(1) obtain e where o: "objs h a = Some e"
    by (auto split: option.splits)
  with Suc.prems(2) have lt: "a < next_ptr h" by (auto simp: heap_ok_def)
  with Suc.prems(3) o have o': "objs h' a = Some e" by (simp add: extends_def)
  show ?case
  proof (cases "derived e")
    case (ConfigScope el bl em ty)
    with Suc.prems(1) o have "\<forall>c\<in>set (el @ bl). within_depth k h c" by simp
    with Suc.IH Suc.prems(2,3) have "\<forall>c\<in>set (el @ bl). within_depth k h' c" by blast
    with o' ConfigScope show ?thesis by simp
  qed (use o' in simp_all)
qed

lemma Clone_step:
  assumes "heap_ok h" and "Clone k h x = Some (c, h')"
  shows "c = next_ptr h \<and> c < next_ptr h' \<and> extends h h' \<and> heap_ok h' \<and> copy_of h x h' c"
proof -
  note p = Clone_props [OF assms]
  from p [THEN conjunct1] p [THEN conjunct2, THEN conjunct1]
    p [THEN conjunct2, THEN conjunct2, THEN conjunct1]
    p [THEN conjunct2, THEN conjunct2, THEN conjunct2, THEN conjunct1]
    p [THEN conjunct2, THEN conjunct2, THEN conjunct2, THEN conjunct2, THEN conjunct1]
  show ?thesis by (intro conjI)
qed

lemma Clone_entries_returns:
  assumes step: "\<And>h x. heap_ok h \<Longrightarrow> within_depth k h x \<Longrightarrow> \<exists>c h'. Clone k h x = Some (c, h')"
  shows "heap_ok h \<Longrightarrow> \<forall>x\<in>set xs. within_depth k h x
    \<Longrightarrow> \<exists>r. Clone_entries k h xs acc m = Some r"
proof (induction xs arbitrary: h acc m)
  case Nil
  show ?case by simp
next
  case (Cons x xs)
  from Cons.prems have wx: "within_depth k h x" by simp
  from step [OF Cons.prems(1) wx] obtain p h1 where c: "Clone k h x = Some (p, h1)" by blast
  from Clone_step [OF Cons.prems(1) c] have e: "extends h h1" and ok1: "heap_ok h1"
    and cp: "copy_of h x h1 p" by auto
  from cp obtain ex where ox: "objs h x = Some ex" by (auto simp: copy_of_def)
  with Cons.prems(1) have "x < next_ptr h" by (auto simp: heap_ok_def)
  with e ox have ox1: "objs h1 x = Some ex" by (simp add: extends_def)
  have "\<forall>y\<in>set xs. within_depth k h1 y"
    using Cons.prems within_depth_extends [OF _ Cons.prems(1) e] by simp
  from Cons.IH [OF ok1 this] obtain r where
    "Clone_entries k h1 xs (acc @ [p]) (m(name ex \<mapsto> p)) = Some r" by blast
  with c ox1 have "Clone_entries k h (x # xs) acc m = Some r" by simp
  then show ?case ..
qed

lemma Clone_returns:
  "heap_ok h \<Longrightarrow> within_depth k h x \<Longrightarrow> \<exists>c h'. Clone k h x = Some (c, h')"
proof (induction k arbitrary: h x)
  case 0
  then show ?case by simp
next
  case (Suc k)
  from Suc.prems(2) obtain e where o: "objs h x = Some e"
    by (auto split: option.splits)
  show ?case
  proof (cases "derived e")
    case (ConfigScope el bl em ty)
    let ?h0 = "h\<lparr>next_ptr := Suc (next_ptr h)\<rparr>"
    have ok0: "heap_ok ?h0" by (rule heap_ok_reserve [OF Suc.prems(1)])
    have e0: "extends h ?h0" by (simp add: extends_def)
    from Suc.prems(2) o ConfigScope have all: "\<forall>c\<in>set (el @ bl). within_depth k h c" by simp
    then have "\<forall>c\<in>set el. within_depth k ?h0 c"
      using within_depth_extends [OF _ Suc.prems(1) e0] by simp
    from Clone_entries_returns [OF Suc.IH ok0 this, of "[]" Map.empty]
    obtain res1 where "Clone_entries k ?h0 el [] Map.empty = Some res1" ..
    moreover obtain el' em1 h1 where "res1 = (el', em1, h1)" by (cases res1)
    ultimately have r1: "Clone_entries k ?h0 el [] Map.empty = Some (el', em1, h1)" by simp
    have ch: "children e = el @ bl" using ConfigScope by (simp add: children_def)
    have "\<forall>y\<in>set el. y < next_ptr ?h0"
      using Suc.prems(1) o ch by (auto simp: heap_ok_def less_Suc_eq)
    from Clone_entries_props [OF Clone_step ok0 this r1]
    have e1: "extends ?h0 h1" and ok1: "heap_ok h1" by simp_all
    have "\<forall>c\<in>set bl. within_depth k h1 c"
      using all within_depth_extends [OF _ Suc.prems(1) extends_trans [OF e0 e1]] by simp
    from Clone_entries_returns [OF Suc.IH ok1 this, of "[]" em1]
    obtain res2 where "Clone_entries k h1 bl [] em1 = Some res2" ..
    moreover obtain bl' em2 h2 where "res2 = (bl', em2, h2)" by (cases res2)
    ultimately have r2: "Clone_entries k h1 bl [] em1 = Some (bl', em2, h2)" by simp
    from o ConfigScope r1 r2 show ?thesis by simp
  qed (use o in simp_all)
qed

lemma Clone_children_independent:
  assumes "heap_ok h" and "objs h s = Some e" and "derived e = ConfigScope el bl em ty"
    and "Clone k h s = Some (c, h')"
  shows "\<exists>e' el' bl' em'. objs h' c = Some e' \<and> derived e' = ConfigScope el' bl' em' []
    \<and> length el' = length el \<and> length bl' = length bl
    \<and> (\<forall>i<length (el @ bl).
          (el' @ bl') ! i \<noteq> (el @ bl) ! i
          \<and> objs h' ((el @ bl) ! i) = objs h ((el @ bl) ! i)
          \<and> copy_of h ((el @ bl) ! i) h' ((el' @ bl') ! i)
          \<and> AsDouble E h' ((el' @ bl') ! i) = AsDouble E h ((el @ bl) ! i)
          \<and> AsString E h' ((el' @ bl') ! i) = AsString E h ((el @ bl) ! i)
          \<and> (\<forall>p q. (p = (el' @ bl') ! i \<and> q = (el @ bl) ! i
                     \<or> p = (el @ bl) ! i \<and> q = (el' @ bl') ! i)
                \<longrightarrow> holds_own_value h' p
                \<longrightarrow> (\<forall>v h''. SetValue E h' p v = Returned h''
                      \<longrightarrow> AsDouble E h'' q = AsDouble E h' q
                          \<and> AsString E h'' q = AsString E h' q)
                    \<and> (\<forall>t h''. SetString E h' p t = Returned h''
                      \<longrightarrow> AsDouble E h'' q = AsDouble E h' q
                          \<and> AsString E h'' q = AsString E h' q)))"
proof -
  from Clone_props [OF assms(1,4)] assms(2,3) obtain ec el' bl' em' where
    c: "c = next_ptr h" and ext: "extends h h'"
    and oc: "objs h' c = Some ec" and dc: "derived ec = ConfigScope el' bl' em' []"
    and lel: "length el' = length el" and lbl: "length bl' = length bl"
    and cel: "\<forall>i<length el. c < el' ! i \<and> copy_of h (el ! i) h' (el' ! i)"
    and cbl: "\<forall>i<length bl. c < bl' ! i \<and> copy_of h (bl ! i) h' (bl' ! i)"
    by blast
  have ch: "children e = el @ bl" using assms(3) by (simp add: children_def)
  have each: "c < (el' @ bl') ! i \<and> copy_of h ((el @ bl) ! i) h' ((el' @ bl') ! i)
      \<and> (el @ bl) ! i < next_ptr h" if "i < length (el @ bl)" for i
  proof -
    have "(el @ bl) ! i \<in> set (children e)"
      using nth_mem [OF that] ch by simp
    with assms(1,2) have "(el @ bl) ! i < next_ptr h" by (auto simp: heap_ok_def)
    moreover have "c < (el' @ bl') ! i \<and> copy_of h ((el @ bl) ! i) h' ((el' @ bl') ! i)"
    proof (cases "i < length el")
      case True
      with cel lel show ?thesis by (simp add: nth_append)
    next
      case False
      with that have "i - length el < length bl" by simp
      with cbl False lel show ?thesis by (simp add: nth_append)
    qed
    ultimately show ?thesis by simp
  qed
  have "(el' @ bl') ! i \<noteq> (el @ bl) ! i
          \<and> objs h' ((el @ bl) ! i) = objs h ((el @ bl) ! i)
          \<and> copy_of h ((el @ bl) ! i) h' ((el' @ bl') ! i)
          \<and> AsDouble E h' ((el' @ bl') ! i) = AsDouble E h ((el @ bl) ! i)
          \<and> AsString E h' ((el' @ bl') ! i) = AsString E h ((el @ bl) ! i)
          \<and> (\<forall>p q. (p = (el' @ bl') ! i \<and> q = (el @ bl) ! i
                     \<or> p = (el @ bl) ! i \<and> q = (el' @ bl') ! i)
                \<longrightarrow> holds_own_value h' p
                \<longrightarrow> (\<forall>v h''. SetValue E h' p v = Returned h''
                      \<longrightarrow> AsDouble E h'' q = AsDouble E h' q
                          \<and> AsString E h'' q = AsString E h' q)
                    \<and> (\<forall>t h''. SetString E h' p t = Returned h''
                      \<longrightarrow> AsDouble E h'' q = AsDouble E h' q
                          \<and> AsString E h'' q = AsString E h' q))"
    if i: "i < length (el @ bl)" for i
  proof -
    let ?p = "(el' @ bl') ! i" and ?q = "(el @ bl) ! i"
    from each [OF i] c have ne: "?p \<noteq> ?q" and cp: "copy_of h ?q h' ?p"
      and q: "?q < next_ptr h" by auto
    from ext q have same: "objs h' ?q = objs h ?q" by (simp add: extends_def)
    note vals = copy_of_values [OF cp ext, of E]
    have ind: "holds_own_value h' a
        \<longrightarrow> (\<forall>v h''. SetValue E h' a v = Returned h''
                      \<longrightarrow> AsDouble E h'' b = AsDouble E h' b
                          \<and> AsString E h'' b = AsString E h' b)
                    \<and> (\<forall>t h''. SetString E h' a t = Returned h''
                      \<longrightarrow> AsDouble E h'' b = AsDouble E h' b
                          \<and> AsString E h'' b = AsString E h' b)"
      if "a = ?p \<and> b = ?q \<or> a = ?q \<and> b = ?p" for a b
    proof
      assume own: "holds_own_value h' a"
      from that ne have "b \<noteq> a" by auto
      from own_value_independent [OF this own]
      show "(\<forall>v h''. SetValue E h' a v = Returned h''
                      \<longrightarrow> AsDouble E h'' b = AsDouble E h' b
                          \<and> AsString E h'' b = AsString E h' b)
                    \<and> (\<forall>t h''. SetString E h' a t = Returned h''
                      \<longrightarrow> AsDouble E h'' b = AsDouble E h' b
                          \<and> AsString E h'' b = AsString E h' b)" .
    qed
    from ne same cp vals ind show ?thesis by blast
  qed
  with oc dc lel lbl show ?thesis by blast
qed


lemma rebuilt_map_cong:
  "\<forall>x\<in>set xs. objs h1 x = objs h x \<Longrightarrow> rebuilt_map h1 xs ps m = rebuilt_map h xs ps m"
  by (induction h1 xs ps m rule: rebuilt_map.induct) simp_all

lemma rebuilt_map_append:
  "length xs = length ps
   \<Longrightarrow> rebuilt_map h (xs @ ys) (ps @ qs) m = rebuilt_map h ys qs (rebuilt_map h xs ps m)"
proof (induction h xs ps m rule: rebuilt_map.induct)
  case (2 h ps m)
  then show ?case by simp
next
  case (3 h xs m)
  then show ?case by simp
qed simp

lemma deep_copy_frame:
  assumes old: "\<forall>a<next_ptr h. objs h1 a = objs h a"
    and ok: "heap_ok h"
    and new: "\<forall>a. objs h1 a = None \<longrightarrow> objs h1' a \<noteq> None \<longrightarrow> objs h' a = objs h1' a"
  shows "deep_copy k h1 h1' x c \<Longrightarrow> x < next_ptr h \<Longrightarrow> deep_copy k h h' x c"
proof (induction k arbitrary: x c)
  case 0
  then show ?case by simp
next
  case (Suc k)
  from Suc.prems(1) obtain ex where ox1: "objs h1 x = Some ex" and c1: "objs h1 c = None"
    by (auto split: option.splits)
  from ox1 old Suc.prems(2) have ox: "objs h x = Some ex" by simp
  have c0: "objs h c = None"
  proof (cases "objs h c")
    case (Some y)
    with ok have "c < next_ptr h" by (auto simp: heap_ok_def)
    with old Some c1 show ?thesis by simp
  qed simp
  show ?case
  proof (cases "IsScope ex")
    case False
    with Suc.prems(1) ox1 have "objs h1' c = Some ex"
      by (cases "derived ex") (simp_all add: IsScope_def)
    with new c1 have "objs h' c = Some ex" by simp
    with False ox c0 show ?thesis
      by (cases "derived ex") (simp_all add: IsScope_def)
  next
    case True
    then obtain el bl em ty where d: "derived ex = ConfigScope el bl em ty"
      by (cases "derived ex") (simp_all add: IsScope_def)
    from Suc.prems(1) ox1 d obtain ec el' bl' em' where
      oc1: "objs h1' c = Some ec" and tr: "ConfigEntry.truncate ec = ConfigEntry.truncate ex"
      and dc: "derived ec = ConfigScope el' bl' em' []"
      and cel: "list_all2 (deep_copy k h1 h1') el el'"
      and cbl: "list_all2 (deep_copy k h1 h1') bl bl'"
      and em': "em' = rebuilt_map h1 (el @ bl) (el' @ bl') Map.empty"
      by (auto split: option.splits derived.splits)
    from new c1 oc1 have oc: "objs h' c = Some ec" by simp
    have below: "\<forall>y\<in>set (el @ bl). y < next_ptr h"
      using ok ox d by (auto simp: heap_ok_def children_def)
    have "list_all2 (deep_copy k h h') el el'"
      using cel below Suc.IH
      by (auto simp: list_all2_conv_all_nth)
    moreover have "list_all2 (deep_copy k h h') bl bl'"
      using cbl below Suc.IH
      by (auto simp: list_all2_conv_all_nth)
    moreover have "em' = rebuilt_map h (el @ bl) (el' @ bl') Map.empty"
      unfolding em' by (rule rebuilt_map_cong) (use below old in simp)
    ultimately show ?thesis using ox c0 d oc tr dc by simp
  qed
qed

lemma Clone_entries_deep:
  assumes step: "\<And>h x c h'. heap_ok h \<Longrightarrow> Clone k h x = Some (c, h') \<Longrightarrow> deep_copy k h h' x c"
  shows "heap_ok h \<Longrightarrow> \<forall>x\<in>set xs. x < next_ptr h
    \<Longrightarrow> Clone_entries k h xs acc m = Some (acc', m', h')
    \<Longrightarrow> \<exists>ps. acc' = acc @ ps \<and> list_all2 (deep_copy k h h') xs ps
          \<and> m' = rebuilt_map h xs ps m"
proof (induction xs arbitrary: h acc m)
  case Nil
  then show ?case by simp
next
  case (Cons x xs)
  from Cons.prems(3) obtain p h1 ex where
    c: "Clone k h x = Some (p, h1)" and ox1: "objs h1 x = Some ex"
    and r: "Clone_entries k h1 xs (acc @ [p]) (m(name ex \<mapsto> p)) = Some (acc', m', h')"
    by (auto split: option.splits)
  have stepk: "\<And>h x c h'. heap_ok h \<Longrightarrow> Clone k h x = Some (c, h')
      \<Longrightarrow> c = next_ptr h \<and> c < next_ptr h' \<and> extends h h' \<and> heap_ok h' \<and> copy_of h x h' c"
    by (rule Clone_step)
  from Clone_step [OF Cons.prems(1) c] have e1: "extends h h1" and ok1: "heap_ok h1"
    by auto
  have xlt: "x < next_ptr h" using Cons.prems(2) by simp
  have old: "\<forall>a<next_ptr h. objs h1 a = objs h a" using e1 by (simp add: extends_def)
  have below: "\<forall>y\<in>set xs. y < next_ptr h1"
    using Cons.prems(2) e1 by (auto simp: extends_def)
  from Clone_entries_props [OF stepk ok1 below r] have e2: "extends h1 h'"
    by simp
  from Cons.IH [OF ok1 below r] obtain ps where
    acc': "acc' = (acc @ [p]) @ ps" and tl: "list_all2 (deep_copy k h1 h') xs ps"
    and m': "m' = rebuilt_map h1 xs ps (m(name ex \<mapsto> p))"
    by blast
  have keep: "\<forall>a. objs h a = None \<longrightarrow> objs h1 a \<noteq> None \<longrightarrow> objs h' a = objs h1 a"
    using e2 ok1 by (auto simp: extends_def heap_ok_def)
  have hd: "deep_copy k h h' x p"
    by (rule deep_copy_frame [OF _ Cons.prems(1) keep step [OF Cons.prems(1) c] xlt]) simp
  have tl': "list_all2 (deep_copy k h h') xs ps"
    using tl Cons.prems(2) deep_copy_frame [OF old Cons.prems(1), of h' h' k]
    by (auto simp: list_all2_conv_all_nth)
  have nm: "name ex = name (the (objs h x))"
    using ox1 old xlt by simp
  have "rebuilt_map h1 xs ps (m(name ex \<mapsto> p)) = rebuilt_map h xs ps (m(name ex \<mapsto> p))"
    by (rule rebuilt_map_cong) (use old Cons.prems(2) in simp)
  with m' nm have "m' = rebuilt_map h (x # xs) (p # ps) m" by simp
  with acc' hd tl' show ?case
    by (intro exI [of _ "p # ps"]) simp
qed

lemma Clone_deep:
  "heap_ok h \<Longrightarrow> Clone k h x = Some (c, h') \<Longrightarrow> deep_copy k h h' x c"
proof (induction k arbitrary: h x c h')
  case 0
  then show ?case by simp
next
  case (Suc k)
  note ok = Suc.prems(1)
  from Suc.prems(2) obtain ex where ox: "objs h x = Some ex"
    by (auto split: option.splits)
  have fresh: "objs h (next_ptr h) = None"
    using ok by (cases "objs h (next_ptr h)") (auto simp: heap_ok_def)
  show ?case
  proof (cases "IsScope ex")
    case False
    then have c: "(c, h') = NewPtr ex h"
      using Suc.prems(2) ox by (cases "derived ex") (simp_all add: IsScope_def)
    then have "c = next_ptr h" "objs h' c = Some ex"
      by (simp_all add: NewPtr_def)
    with False ox fresh show ?thesis
      by (cases "derived ex") (simp_all add: IsScope_def)
  next
    case True
    then obtain el bl em ty where d: "derived ex = ConfigScope el bl em ty"
      by (cases "derived ex") (simp_all add: IsScope_def)
    let ?N = "next_ptr h"
    let ?h0 = "h\<lparr>next_ptr := Suc ?N\<rparr>"
    from Suc.prems(2) ox d obtain el' em1 h1 bl' em2 h2 where
      r1: "Clone_entries k ?h0 el [] Map.empty = Some (el', em1, h1)"
      and r2: "Clone_entries k h1 bl [] em1 = Some (bl', em2, h2)"
      and c: "c = ?N"
      and h': "h' = h2\<lparr>objs := (objs h2)(?N \<mapsto> ex\<lparr>derived := ConfigScope el' bl' em2 []\<rparr>)\<rparr>"
      by (auto split: option.splits)
    have stepk: "\<And>h x c h'. heap_ok h \<Longrightarrow> Clone k h x = Some (c, h')
      \<Longrightarrow> c = next_ptr h \<and> c < next_ptr h' \<and> extends h h' \<and> heap_ok h' \<and> copy_of h x h' c"
      by (rule Clone_step)
    have ok0: "heap_ok ?h0" by (rule heap_ok_reserve [OF ok])
    have below: "\<forall>y\<in>set (el @ bl). y < ?N"
      using ok ox d by (auto simp: heap_ok_def children_def)
    then have el0: "\<forall>y\<in>set el. y < next_ptr ?h0" and bl0: "\<forall>y\<in>set bl. y < ?N"
      by (auto simp: less_Suc_eq)
    from Clone_entries_props [OF stepk ok0 el0 r1] obtain ps0 where
      e01: "extends ?h0 h1" and ok1: "heap_ok h1" and "el' = [] @ ps0"
      and lel: "length ps0 = length el"
      by blast
    then have lel: "length el' = length el" by simp
    have n01: "Suc ?N \<le> next_ptr h1" using e01 by (simp add: extends_def)
    have bl1: "\<forall>y\<in>set bl. y < next_ptr h1" using bl0 n01 by auto
    from Clone_entries_props [OF stepk ok1 bl1 r2] have e12: "extends h1 h2"
      by simp
    from Clone_entries_deep [OF Suc.IH ok0 el0 r1] have
      del: "list_all2 (deep_copy k ?h0 h1) el el'" and em1: "em1 = rebuilt_map ?h0 el el' Map.empty"
      by auto
    from Clone_entries_deep [OF Suc.IH ok1 bl1 r2] have
      dbl: "list_all2 (deep_copy k h1 h2) bl bl'" and em2: "em2 = rebuilt_map h1 bl bl' em1"
      by auto
    have N1: "objs h1 ?N = None" using e01 fresh by (simp add: extends_def)
    have N2: "objs h2 ?N = None" using e12 n01 N1 by (simp add: extends_def)
    have old1: "\<forall>a<next_ptr h. objs h1 a = objs h a" using e01 by (simp add: extends_def)
    have new1: "\<forall>a. objs ?h0 a = None \<longrightarrow> objs h1 a \<noteq> None \<longrightarrow> objs h' a = objs h1 a"
    proof (intro allI impI)
      fix a assume "objs ?h0 a = None" and a: "objs h1 a \<noteq> None"
      with N1 have "a \<noteq> ?N" by auto
      moreover from a ok1 have "a < next_ptr h1" by (auto simp: heap_ok_def)
      ultimately show "objs h' a = objs h1 a" using e12 h' by (simp add: extends_def)
    qed
    have new2: "\<forall>a. objs h1 a = None \<longrightarrow> objs h2 a \<noteq> None \<longrightarrow> objs h' a = objs h2 a"
      using N2 h' by auto
    have el00: "\<forall>y\<in>set el. y < ?N" using below by simp
    have del': "list_all2 (deep_copy k h h') el el'"
      using del el00 deep_copy_frame [of h ?h0 h1 h' k, OF _ ok new1]
      by (auto simp: list_all2_conv_all_nth)
    have dbl': "list_all2 (deep_copy k h h') bl bl'"
      using dbl bl0 deep_copy_frame [OF old1 ok new2, of k]
      by (auto simp: list_all2_conv_all_nth)
    have "rebuilt_map h1 bl bl' em1 = rebuilt_map h bl bl' em1"
      by (rule rebuilt_map_cong) (use old1 bl0 in simp)
    moreover have "rebuilt_map ?h0 el el' Map.empty = rebuilt_map h el el' Map.empty"
      by (rule rebuilt_map_cong) simp
    ultimately have "em2 = rebuilt_map h (el @ bl) (el' @ bl') Map.empty"
      using em1 em2 rebuilt_map_append [OF lel [symmetric], of h bl bl' Map.empty] by simp
    with ox d c h' fresh del' dbl' show ?thesis
      by (simp add: ConfigEntry.truncate_def)
  qed
qed

lemma rebuilt_map_other:
  "n \<notin> (\<lambda>a. name (the (objs h a))) ` set xs \<Longrightarrow> rebuilt_map h xs ps m n = m n"
  by (induction h xs ps m rule: rebuilt_map.induct) simp_all

lemma rebuilt_map_distinct:
  "length xs = length ps \<Longrightarrow> distinct (map (\<lambda>a. name (the (objs h a))) xs) \<Longrightarrow> i < length xs
   \<Longrightarrow> rebuilt_map h xs ps m (name (the (objs h (xs ! i)))) = Some (ps ! i)"
proof (induction h xs ps m arbitrary: i rule: rebuilt_map.induct)
  case (1 h x xs p ps m)
  show ?case
  proof (cases i)
    case 0
    have "name (the (objs h x)) \<notin> (\<lambda>a. name (the (objs h a))) ` set xs"
      using "1.prems"(2) by simp
    from rebuilt_map_other [OF this] 0 show ?thesis by simp
  next
    case (Suc j)
    have "rebuilt_map h xs ps (m(name (the (objs h x)) \<mapsto> p)) (name (the (objs h (xs ! j))))
        = Some (ps ! j)"
      by (rule "1.IH") (use "1.prems" Suc in simp_all)
    with Suc show ?thesis by simp
  qed
qed simp_all

lemma deep_copy_fresh:
  "deep_copy k h h' x c \<Longrightarrow> objs h c = None \<and> objs h x \<noteq> None \<and> objs h' c \<noteq> None"
  by (cases k) (auto split: option.splits derived.splits)

lemma Clone_scope_shape:
  assumes "heap_ok h" and "objs h s = Some e" and "derived e = ConfigScope el bl em ty"
    and "Clone k h s = Some (c, h')"
  shows "\<exists>el' bl'. objs h' c = Some (e\<lparr>derived :=
            ConfigScope el' bl' (rebuilt_map h (el @ bl) (el' @ bl') Map.empty) []\<rparr>)
      \<and> list_all2 (deep_copy (k - 1) h h') el el'
      \<and> list_all2 (deep_copy (k - 1) h h') bl bl'"
proof -
  from assms(4) obtain j where k: "k = Suc j" by (cases k) simp_all
  from Clone_deep [OF assms(1,4)] k have "deep_copy (Suc j) h h' s c" by simp
  with assms(2,3) obtain ec el' bl' em' where
    oc: "objs h' c = Some ec" and tr: "ConfigEntry.truncate ec = ConfigEntry.truncate e"
    and dc: "derived ec = ConfigScope el' bl' em' []"
    and cel: "list_all2 (deep_copy j h h') el el'"
    and cbl: "list_all2 (deep_copy j h h') bl bl'"
    and em': "em' = rebuilt_map h (el @ bl) (el' @ bl') Map.empty"
    by (auto split: option.splits derived.splits)
  have "ec = e\<lparr>derived := ConfigScope el' bl' em' []\<rparr>"
    by (rule entry_eqI) (use tr dc in \<open>simp_all add: ConfigEntry.truncate_def\<close>)
  with oc em' cel cbl k show ?thesis by auto
qed

lemma new_old_independent:
  assumes "objs h p = None \<and> objs h q \<noteq> None \<or> objs h q = None \<and> objs h p \<noteq> None"
    and own: "holds_own_value h' p"
  shows "(\<forall>v h''. SetValue E h' p v = Returned h''
                    \<longrightarrow> AsDouble E h'' q = AsDouble E h' q
                        \<and> AsString E h'' q = AsString E h' q)
                  \<and> (\<forall>t h''. SetString E h' p t = Returned h''
                    \<longrightarrow> AsDouble E h'' q = AsDouble E h' q
                        \<and> AsString E h'' q = AsString E h' q)"
proof -
  from assms(1) have "q \<noteq> p" by auto
  from own_value_independent [OF this own] show ?thesis .
qed

lemma Clone_scope_props:
  assumes "heap_ok h" and "objs h s = Some e" and "derived e = ConfigScope el bl em ty"
    and run: "Clone k h s = Some (c, h')"
  shows "c = next_ptr h \<and> objs h c = None \<and> extends h h' \<and> heap_ok h'
        \<and> deep_copy k h h' s c
        \<and> (\<exists>el' bl'.
              objs h' c = Some (e\<lparr>derived :=
                ConfigScope el' bl' (rebuilt_map h (el @ bl) (el' @ bl') Map.empty) []\<rparr>)
            \<and> length el' = length el \<and> length bl' = length bl
            \<and> list_all2 (deep_copy (k - 1) h h') el el'
            \<and> list_all2 (deep_copy (k - 1) h h') bl bl'
            \<and> (distinct (map (\<lambda>a. name (the (objs h a))) (el @ bl)) \<longrightarrow>
                 (\<forall>i<length (el @ bl).
                    rebuilt_map h (el @ bl) (el' @ bl') Map.empty
                        (name (the (objs h ((el @ bl) ! i))))
                      = Some ((el' @ bl') ! i)))
            \<and> (\<forall>i<length (el @ bl).
                  objs h ((el' @ bl') ! i) = None
                \<and> (el' @ bl') ! i \<noteq> (el @ bl) ! i
                \<and> objs h' ((el @ bl) ! i) = objs h ((el @ bl) ! i)
                \<and> copy_of h ((el @ bl) ! i) h' ((el' @ bl') ! i)
                \<and> AsDouble E h' ((el' @ bl') ! i) = AsDouble E h ((el @ bl) ! i)
                \<and> AsString E h' ((el' @ bl') ! i) = AsString E h ((el @ bl) ! i)
                \<and> (\<forall>p q. (p = (el' @ bl') ! i \<and> q = (el @ bl) ! i
                           \<or> p = (el @ bl) ! i \<and> q = (el' @ bl') ! i)
                      \<longrightarrow> holds_own_value h' p
                      \<longrightarrow> (\<forall>v h''. SetValue E h' p v = Returned h''
                            \<longrightarrow> AsDouble E h'' q = AsDouble E h' q
                                \<and> AsString E h'' q = AsString E h' q)
                          \<and> (\<forall>t h''. SetString E h' p t = Returned h''
                            \<longrightarrow> AsDouble E h'' q = AsDouble E h' q
                                \<and> AsString E h'' q = AsString E h' q))))
        \<and> (\<forall>p q. (objs h p = None \<and> objs h q \<noteq> None \<or> objs h q = None \<and> objs h p \<noteq> None)
              \<longrightarrow> holds_own_value h' p
              \<longrightarrow> (\<forall>v h''. SetValue E h' p v = Returned h''
                    \<longrightarrow> AsDouble E h'' q = AsDouble E h' q
                        \<and> AsString E h'' q = AsString E h' q)
                  \<and> (\<forall>t h''. SetString E h' p t = Returned h''
                    \<longrightarrow> AsDouble E h'' q = AsDouble E h' q
                        \<and> AsString E h'' q = AsString E h' q))"
proof (intro conjI)
  note st = Clone_step [OF assms(1) run]
  from st show "c = next_ptr h" by (rule conjunct1)
  with assms(1) show "objs h c = None"
    by (cases "objs h c") (auto simp: heap_ok_def)
  from st show "extends h h'" by simp
  from st show "heap_ok h'" by simp
  show "deep_copy k h h' s c" by (rule Clone_deep [OF assms(1) run])
  from Clone_scope_shape [OF assms] obtain el' bl' where
    oc: "objs h' c = Some (e\<lparr>derived :=
            ConfigScope el' bl' (rebuilt_map h (el @ bl) (el' @ bl') Map.empty) []\<rparr>)"
    and cel: "list_all2 (deep_copy (k - 1) h h') el el'"
    and cbl: "list_all2 (deep_copy (k - 1) h h') bl bl'"
    by blast
  from cel cbl have lel: "length el' = length el" and lbl: "length bl' = length bl"
    by (simp_all add: list_all2_lengthD)
  have call: "list_all2 (deep_copy (k - 1) h h') (el @ bl) (el' @ bl')"
    using cel cbl by (rule list_all2_appendI)
  have fresh: "objs h ((el' @ bl') ! i) = None" if "i < length (el @ bl)" for i
    using list_all2_nthD [OF call that] deep_copy_fresh by blast
  have names: "\<forall>i<length (el @ bl).
      rebuilt_map h (el @ bl) (el' @ bl') Map.empty (name (the (objs h ((el @ bl) ! i))))
        = Some ((el' @ bl') ! i)"
    if "distinct (map (\<lambda>a. name (the (objs h a))) (el @ bl))"
    using rebuilt_map_distinct [OF _ that] lel lbl by simp
  from Clone_children_independent [OF assms, of E] obtain e2 el2 bl2 em2 where
    body: "objs h' c = Some e2 \<and> derived e2 = ConfigScope el2 bl2 em2 []
    \<and> length el2 = length el \<and> length bl2 = length bl
    \<and> (\<forall>i<length (el @ bl).
          (el2 @ bl2) ! i \<noteq> (el @ bl) ! i
          \<and> objs h' ((el @ bl) ! i) = objs h ((el @ bl) ! i)
          \<and> copy_of h ((el @ bl) ! i) h' ((el2 @ bl2) ! i)
          \<and> AsDouble E h' ((el2 @ bl2) ! i) = AsDouble E h ((el @ bl) ! i)
          \<and> AsString E h' ((el2 @ bl2) ! i) = AsString E h ((el @ bl) ! i)
          \<and> (\<forall>p q. (p = (el2 @ bl2) ! i \<and> q = (el @ bl) ! i
                     \<or> p = (el @ bl) ! i \<and> q = (el2 @ bl2) ! i)
                \<longrightarrow> holds_own_value h' p
                \<longrightarrow> (\<forall>v h''. SetValue E h' p v = Returned h''
                      \<longrightarrow> AsDouble E h'' q = AsDouble E h' q
                          \<and> AsString E h'' q = AsString E h' q)
                    \<and> (\<forall>t h''. SetString E h' p t = Returned h''
                      \<longrightarrow> AsDouble E h'' q = AsDouble E h' q
                          \<and> AsString E h'' q = AsString E h' q)))"
    by (elim exE) (rule that, assumption)
  from body [THEN conjunct1] oc
  have "e2 = e\<lparr>derived :=
            ConfigScope el' bl' (rebuilt_map h (el @ bl) (el' @ bl') Map.empty) []\<rparr>"
    by simp
  then have "derived e2 = ConfigScope el' bl' (rebuilt_map h (el @ bl) (el' @ bl') Map.empty) []"
    by simp
  with body [THEN conjunct2, THEN conjunct1]
  have same: "el2 = el'" "bl2 = bl'" by simp_all
  note per = body [THEN conjunct2, THEN conjunct2, THEN conjunct2, THEN conjunct2,
      unfolded same]
  have all: "\<forall>i<length (el @ bl).
                  objs h ((el' @ bl') ! i) = None
                \<and> (el' @ bl') ! i \<noteq> (el @ bl) ! i
                \<and> objs h' ((el @ bl) ! i) = objs h ((el @ bl) ! i)
                \<and> copy_of h ((el @ bl) ! i) h' ((el' @ bl') ! i)
                \<and> AsDouble E h' ((el' @ bl') ! i) = AsDouble E h ((el @ bl) ! i)
                \<and> AsString E h' ((el' @ bl') ! i) = AsString E h ((el @ bl) ! i)
                \<and> (\<forall>p q. (p = (el' @ bl') ! i \<and> q = (el @ bl) ! i
                           \<or> p = (el @ bl) ! i \<and> q = (el' @ bl') ! i)
                      \<longrightarrow> holds_own_value h' p
                      \<longrightarrow> (\<forall>v h''. SetValue E h' p v = Returned h''
                            \<longrightarrow> AsDouble E h'' q = AsDouble E h' q
                                \<and> AsString E h'' q = AsString E h' q)
                          \<and> (\<forall>t h''. SetString E h' p t = Returned h''
                            \<longrightarrow> AsDouble E h'' q = AsDouble E h' q
                                \<and> AsString E h'' q = AsString E h' q))"
  proof (intro allI impI)
    fix i assume i: "i < length (el @ bl)"
    from fresh [OF i] per [rule_format, OF i]
    show "objs h ((el' @ bl') ! i) = None
                \<and> (el' @ bl') ! i \<noteq> (el @ bl) ! i
                \<and> objs h' ((el @ bl) ! i) = objs h ((el @ bl) ! i)
                \<and> copy_of h ((el @ bl) ! i) h' ((el' @ bl') ! i)
                \<and> AsDouble E h' ((el' @ bl') ! i) = AsDouble E h ((el @ bl) ! i)
                \<and> AsString E h' ((el' @ bl') ! i) = AsString E h ((el @ bl) ! i)
                \<and> (\<forall>p q. (p = (el' @ bl') ! i \<and> q = (el @ bl) ! i
                           \<or> p = (el @ bl) ! i \<and> q = (el' @ bl') ! i)
                      \<longrightarrow> holds_own_value h' p
                      \<longrightarrow> (\<forall>v h''. SetValue E h' p v = Returned h''
                            \<longrightarrow> AsDouble E h'' q = AsDouble E h' q
                                \<and> AsString E h'' q = AsString E h' q)
                          \<and> (\<forall>t h''. SetString E h' p t = Returned h''
                            \<longrightarrow> AsDouble E h'' q = AsDouble E h' q
                                \<and> AsString E h'' q = AsString E h' q))"
      by (rule conjI)
  qed
  from oc lel lbl cel cbl names all
  show "\<exists>el' bl'.
              objs h' c = Some (e\<lparr>derived :=
                ConfigScope el' bl' (rebuilt_map h (el @ bl) (el' @ bl') Map.empty) []\<rparr>)
            \<and> length el' = length el \<and> length bl' = length bl
            \<and> list_all2 (deep_copy (k - 1) h h') el el'
            \<and> list_all2 (deep_copy (k - 1) h h') bl bl'
            \<and> (distinct (map (\<lambda>a. name (the (objs h a))) (el @ bl)) \<longrightarrow>
                 (\<forall>i<length (el @ bl).
                    rebuilt_map h (el @ bl) (el' @ bl') Map.empty
                        (name (the (objs h ((el @ bl) ! i))))
                      = Some ((el' @ bl') ! i)))
            \<and> (\<forall>i<length (el @ bl).
                  objs h ((el' @ bl') ! i) = None
                \<and> (el' @ bl') ! i \<noteq> (el @ bl) ! i
                \<and> objs h' ((el @ bl) ! i) = objs h ((el @ bl) ! i)
                \<and> copy_of h ((el @ bl) ! i) h' ((el' @ bl') ! i)
                \<and> AsDouble E h' ((el' @ bl') ! i) = AsDouble E h ((el @ bl) ! i)
                \<and> AsString E h' ((el' @ bl') ! i) = AsString E h ((el @ bl) ! i)
                \<and> (\<forall>p q. (p = (el' @ bl') ! i \<and> q = (el @ bl) ! i
                           \<or> p = (el @ bl) ! i \<and> q = (el' @ bl') ! i)
                      \<longrightarrow> holds_own_value h' p
                      \<longrightarrow> (\<forall>v h''. SetValue E h' p v = Returned h''
                            \<longrightarrow> AsDouble E h'' q = AsDouble E h' q
                                \<and> AsString E h'' q = AsString E h' q)
                          \<and> (\<forall>t h''. SetString E h' p t = Returned h''
                            \<longrightarrow> AsDouble E h'' q = AsDouble E h' q
                                \<and> AsString E h'' q = AsString E h' q)))"
    by (intro exI [of _ el'] exI [of _ bl'] conjI impI)
  show "\<forall>p q. (objs h p = None \<and> objs h q \<noteq> None \<or> objs h q = None \<and> objs h p \<noteq> None)
              \<longrightarrow> holds_own_value h' p
              \<longrightarrow> (\<forall>v h''. SetValue E h' p v = Returned h''
                    \<longrightarrow> AsDouble E h'' q = AsDouble E h' q
                        \<and> AsString E h'' q = AsString E h' q)
                  \<and> (\<forall>t h''. SetString E h' p t = Returned h''
                    \<longrightarrow> AsDouble E h'' q = AsDouble E h' q
                        \<and> AsString E h'' q = AsString E h' q)"
    by (intro allI impI) (rule new_old_independent)
qed

text \<open>
  C3, as the code has it. \<open>Clone\<close> of a scope returns whenever the entries below the
  scope form a tree within the depth given as fuel. The result is a deep copy: a new object,
  at an address not allocated before, with the base-class fields of the original (its
  \<open>scope\<close> pointer among them), an empty \<open>type\<close>, and lists holding, in order, deep
  copies of the declared and of the built-in children, each again at a new address and copied
  recursively; the map of the clone is rebuilt, assigning the name of each original child the
  pointer to its copy, so that under distinct names every name resolves to the copy of the
  child. The original objects and the variables of the host are untouched. Each child of the
  clone has the value of the corresponding child. Writing the value of an entry that holds
  its own value (\<open>ConfigEntry_DoubleVar\<close>, \<open>ConfigEntry_StringVar\<close>) leaves the value
  of every other entry unchanged: in particular a write to any new object leaves every
  original object's value unchanged, and vice versa. The copy of an entry that is not a scope
  is member for member the original, so the clone of a linked entry refers to the same
  variable of the host.
\<close>

theorem Clone_copies_objects_shares_host_variables:
  assumes "heap_ok h" and "objs h s = Some e" and "derived e = ConfigScope el bl em ty"
  shows "(within_depth k h s \<longrightarrow> (\<exists>c h'. Clone k h s = Some (c, h')))
    \<and> (\<forall>c h'. Clone k h s = Some (c, h') \<longrightarrow>
        c = next_ptr h \<and> objs h c = None \<and> extends h h' \<and> heap_ok h'
        \<and> deep_copy k h h' s c
        \<and> (\<exists>el' bl'.
              objs h' c = Some (e\<lparr>derived :=
                ConfigScope el' bl' (rebuilt_map h (el @ bl) (el' @ bl') Map.empty) []\<rparr>)
            \<and> length el' = length el \<and> length bl' = length bl
            \<and> list_all2 (deep_copy (k - 1) h h') el el'
            \<and> list_all2 (deep_copy (k - 1) h h') bl bl'
            \<and> (distinct (map (\<lambda>a. name (the (objs h a))) (el @ bl)) \<longrightarrow>
                 (\<forall>i<length (el @ bl).
                    rebuilt_map h (el @ bl) (el' @ bl') Map.empty
                        (name (the (objs h ((el @ bl) ! i))))
                      = Some ((el' @ bl') ! i)))
            \<and> (\<forall>i<length (el @ bl).
                  objs h ((el' @ bl') ! i) = None
                \<and> (el' @ bl') ! i \<noteq> (el @ bl) ! i
                \<and> objs h' ((el @ bl) ! i) = objs h ((el @ bl) ! i)
                \<and> copy_of h ((el @ bl) ! i) h' ((el' @ bl') ! i)
                \<and> AsDouble E h' ((el' @ bl') ! i) = AsDouble E h ((el @ bl) ! i)
                \<and> AsString E h' ((el' @ bl') ! i) = AsString E h ((el @ bl) ! i)
                \<and> (\<forall>p q. (p = (el' @ bl') ! i \<and> q = (el @ bl) ! i
                           \<or> p = (el @ bl) ! i \<and> q = (el' @ bl') ! i)
                      \<longrightarrow> holds_own_value h' p
                      \<longrightarrow> (\<forall>v h''. SetValue E h' p v = Returned h''
                            \<longrightarrow> AsDouble E h'' q = AsDouble E h' q
                                \<and> AsString E h'' q = AsString E h' q)
                          \<and> (\<forall>t h''. SetString E h' p t = Returned h''
                            \<longrightarrow> AsDouble E h'' q = AsDouble E h' q
                                \<and> AsString E h'' q = AsString E h' q))))
        \<and> (\<forall>p q. (objs h p = None \<and> objs h q \<noteq> None \<or> objs h q = None \<and> objs h p \<noteq> None)
              \<longrightarrow> holds_own_value h' p
              \<longrightarrow> (\<forall>v h''. SetValue E h' p v = Returned h''
                    \<longrightarrow> AsDouble E h'' q = AsDouble E h' q
                        \<and> AsString E h'' q = AsString E h' q)
                  \<and> (\<forall>t h''. SetString E h' p t = Returned h''
                    \<longrightarrow> AsDouble E h'' q = AsDouble E h' q
                        \<and> AsString E h'' q = AsString E h' q)))"
  apply (rule conjI)
   apply (rule impI, rule Clone_returns [OF assms(1)], assumption)
  apply (intro allI impI)
  apply (rule Clone_scope_props [OF assms])
  apply assumption
  done

lemmas clone_ex_defs = link_ex_def clone_ex_def chain_A_def

lemma heap_ok_chain_x: "heap_ok (snd chain_x)"
  by (auto simp: heap_ok_def chain_defs decl_defs ctor_defs children_def split: if_splits)

lemma clone_chain_run:
  "Clone 3 (snd chain_x) 0 = Some clone_chain"
  "fst clone_chain = 4"
  "entry_list (derived (the (objs (snd clone_chain) 4))) = [5, 7]"
  "objs (snd clone_chain) 7 = Some (ConfigEntry_DoubleVar_ctor emp_example ''x'' 0 [] (Some 0))"
  "objs (snd clone_chain) 3 = Some (ConfigEntry_DoubleVar_ctor emp_example ''x'' 0 [] (Some 0))"
  "scope (the (objs (snd clone_chain) 5)) = Some 0"
  "type_s (derived (the (objs (snd clone_chain) 4))) = []"
  by (simp_all add: clone_chain_def chain_defs decl_defs ctor_defs eval_nat_numeral)

lemma chain_x_fresh:
  "objs (snd chain_x) 7 = None" "objs (snd chain_x) 3 \<noteq> None"
  by (simp_all add: chain_defs decl_defs ctor_defs eval_nat_numeral)

text \<open>
  A scope with one linked variable is cloned; setting the value of the clone's child sets
  the variable of the host, and the child of the original scope reads the new value.
\<close>

theorem shared_host_variable_counterexample:
  "Clone 2 (snd link_ex) 0 = Some clone_ex
   \<and> entry_list (derived (the (objs (snd link_ex) 0))) = [1]
   \<and> fst clone_ex = 2
   \<and> entry_list (derived (the (objs (snd clone_ex) 2))) = [3]
   \<and> AsDouble emp_example (snd clone_ex) 1 = Returned 0
   \<and> SetValue emp_example (snd clone_ex) 3 5
       = Returned ((snd clone_ex)\<lparr>double_vars := (double_vars (snd clone_ex))(0 := 5)\<rparr>)
   \<and> AsDouble emp_example ((snd clone_ex)\<lparr>double_vars := (double_vars (snd clone_ex))(0 := 5)\<rparr>) 1
       = Returned 5"
  by (simp add: clone_ex_defs decl_defs ctor_defs eval_nat_numeral AsDouble_def SetValue_def)


theorem Clone_copies_objects_shares_host_variables_witness:
  "within_depth 3 (snd chain_x) 0
   \<and> heap_ok (snd chain_x)
   \<and> objs (snd chain_x) 0 = Some (ConfigScope_ctor emp_example ''A'' [] None []
        \<lparr>derived := ConfigScope [1, 3] [] [''B'' \<mapsto> 1, ''x'' \<mapsto> 3] []\<rparr>)
   \<and> Clone 3 (snd chain_x) 0 = Some (4, snd clone_chain)
   \<and> deep_copy 3 (snd chain_x) (snd clone_chain) 0 4
   \<and> entry_list (derived (the (objs (snd clone_chain) 4))) = [5, 7]
   \<and> entry_map (derived (the (objs (snd clone_chain) 4))) ''x'' = Some 7
   \<and> objs (snd chain_x) 7 = None
   \<and> holds_own_value (snd clone_chain) 7
   \<and> SetValue emp_example (snd clone_chain) 7 5
       = Returned ((snd clone_chain)\<lparr>objs := (objs (snd clone_chain))(7 \<mapsto>
           ConfigEntry_DoubleVar_ctor emp_example ''x'' 5 [] (Some 0))\<rparr>)
   \<and> AsDouble emp_example ((snd clone_chain)\<lparr>objs := (objs (snd clone_chain))(7 \<mapsto>
           ConfigEntry_DoubleVar_ctor emp_example ''x'' 5 [] (Some 0))\<rparr>) 7 = Returned 5
   \<and> AsDouble emp_example ((snd clone_chain)\<lparr>objs := (objs (snd clone_chain))(7 \<mapsto>
           ConfigEntry_DoubleVar_ctor emp_example ''x'' 5 [] (Some 0))\<rparr>) 3 = Returned 0"
proof -
  let ?h = "snd chain_x" and ?h' = "snd clone_chain"
  let ?A = "ConfigScope_ctor emp_example ''A'' [] None []
      \<lparr>derived := ConfigScope [1, 3] [] [''B'' \<mapsto> 1, ''x'' \<mapsto> 3] []\<rparr>"
  let ?h'' = "?h'\<lparr>objs := (objs ?h')(7 \<mapsto>
           ConfigEntry_DoubleVar_ctor emp_example ''x'' 5 [] (Some 0))\<rparr>"
  have ok: "heap_ok ?h" by (rule heap_ok_chain_x)
  have oA: "objs ?h 0 = Some ?A" by (rule chain_x_objs)
  have dA: "derived ?A = ConfigScope [1, 3] [] [''B'' \<mapsto> 1, ''x'' \<mapsto> 3] []" by simp
  have run: "Clone 3 ?h 0 = Some (4, ?h')"
    using clone_chain_run(1,2) prod.collapse [of clone_chain] by metis
  have el': "entry_list (derived (the (objs ?h' 4))) = [5, 7]" by (rule clone_chain_run)
  have em': "entry_map (derived (the (objs ?h' 4))) ''x'' = Some 7"
    by (simp add: clone_chain_def chain_defs decl_defs ctor_defs eval_nat_numeral)
  have own: "holds_own_value ?h' 7"
    using clone_chain_run(4) by (simp add: holds_own_value_def ctor_defs)
  have sv: "SetValue emp_example ?h' 7 5 = Returned ?h''"
    using clone_chain_run(4) by (simp add: SetValue_def ctor_defs)
  have new: "AsDouble emp_example ?h'' 7 = Returned 5"
    by (simp add: AsDouble_def ctor_defs)
  have old: "AsDouble emp_example ?h' 3 = Returned 0"
    using clone_chain_run(5) by (simp add: AsDouble_def ctor_defs)
  note R = Clone_copies_objects_shares_host_variables [OF ok oA dA, where k = 3 and E = emp_example, THEN conjunct2, rule_format, OF run]
  note deep = R [THEN conjunct2, THEN conjunct2, THEN conjunct2, THEN conjunct2, THEN conjunct1]
  have fr: "objs ?h 7 = None \<and> objs ?h 3 \<noteq> None \<or> objs ?h 3 = None \<and> objs ?h 7 \<noteq> None"
    using chain_x_fresh by simp
  note ind = R [THEN conjunct2, THEN conjunct2, THEN conjunct2, THEN conjunct2, THEN conjunct2,
      THEN conjunct2, rule_format, of 7 3, OF fr own, THEN conjunct1, rule_format, of 5 ?h'',
      OF sv, THEN conjunct1]
  from ind old have "AsDouble emp_example ?h'' 3 = Returned 0" by simp
  moreover have wd: "within_depth 3 (snd chain_x) 0"
    using within_depth_chain_x by simp
  moreover have "\<exists>c h'. Clone 3 ?h 0 = Some (c, h')"
    using Clone_copies_objects_shares_host_variables [OF ok oA dA, where k = 3 and E = emp_example, THEN conjunct1] wd
    by (rule mp)
  ultimately show ?thesis
    using ok oA run el' em' own sv new deep chain_x_fresh(1)
    by (simp del: within_depth.simps Clone.simps deep_copy.simps)
qed

subsection \<open>Temporary symbols\<close>

lemma MakeTempSymbol_result:
  "MakeTempSymbol E v h =
     (next_ptr h,
      h\<lparr>objs := (objs h)(next_ptr h \<mapsto>
             SetTemporary True (Symbol_Var_ctor E ''__Temp'' v [] None)),
         next_ptr := Suc (next_ptr h)\<rparr>)"
  by (simp add: MakeTempSymbol_def NewPtr_def)

lemma Symbol_Var_ctor_fields:
  "name (SetTemporary True (Symbol_Var_ctor E n v d s)) = n"
  "desc (SetTemporary True (Symbol_Var_ctor E n v d s)) = d"
  "scope (SetTemporary True (Symbol_Var_ctor E n v d s)) = s"
  "is_temporary (SetTemporary True (Symbol_Var_ctor E n v d s))"
  "derived (SetTemporary True (Symbol_Var_ctor E n v d s))
     = (case v of V_arithmetic x \<Rightarrow> ConfigEntry_DoubleVar x | V_string x \<Rightarrow> ConfigEntry_StringVar x)"
  "\<not> IsScope (SetTemporary True (Symbol_Var_ctor E n v d s))"
  by (cases v; simp add: Symbol_Var_ctor_def SetTemporary_def ctor_defs IsScope_def)+


lemma LookupEntry_never_fresh:
  assumes "LookupEntry h' s n b = Some r"
    and ok: "pointers_ok h" and p: "p = next_ptr h"
  shows "(\<forall>a. a \<noteq> p \<longrightarrow> objs h' a = objs h a) \<longrightarrow> s \<noteq> p \<longrightarrow> r \<noteq> Some p"
  using assms(1)
proof (induction h' s n b r rule: LookupEntry.raw_induct [rotated, consumes 1, case_names step])
  case (step lookup h0 self in_name scan_scopes r)
  note IH = step(1) and body = step(2)
  show ?case
  proof (intro impI)
    assume old: "\<forall>a. a \<noteq> p \<longrightarrow> objs h0 a = objs h a" and ne: "self \<noteq> p"
    from body obtain e where o: "objs h0 self = Some e"
      by (auto split: option.splits)
    with old ne have oh: "objs h self = Some e" by simp
    show "r \<noteq> Some p"
    proof (cases "derived e")
      case (ConfigScope el bl em ty)
      show ?thesis
      proof (cases "em in_name")
        case (Some x)
        with ok oh ConfigScope have "x < next_ptr h" by (auto simp: pointers_ok_def)
        moreover from body o ConfigScope Some have "r = Some x" by simp
        ultimately show ?thesis using p by simp
      next
        case None
        show ?thesis
        proof (cases "scope e")
          case no_parent: None
          with body o ConfigScope None show ?thesis by simp
        next
          case (Some q)
          with ok oh have "q < next_ptr h" by (auto simp: pointers_ok_def)
          then have qp: "q \<noteq> p" using p by simp
          show ?thesis
          proof (cases scan_scopes)
            case True
            with body o ConfigScope None Some
            have up: "lookup h0 q in_name True = Some r" by simp
            from IH [OF up] old qp show ?thesis by simp
          next
            case False
            with body o ConfigScope None Some show ?thesis by simp
          qed
        qed
      qed
    qed (use body o ne in \<open>auto split: if_splits\<close>)
  qed
qed


lemma MakeTempSymbol_props:
  assumes "heap_ok h" and "pointers_ok h"
  shows "\<exists>p h' e. MakeTempSymbol E v h = (p, h') \<and> objs h p = None \<and> objs h' p = Some e
    \<and> name e = ''__Temp'' \<and> desc e = [] \<and> scope e = None \<and> is_temporary e
    \<and> derived e = (case v of V_arithmetic x \<Rightarrow> ConfigEntry_DoubleVar x
                             | V_string x \<Rightarrow> ConfigEntry_StringVar x)
    \<and> (\<forall>a. a \<noteq> p \<longrightarrow> objs h' a = objs h a)
    \<and> (\<forall>a ea. objs h' a = Some ea \<longrightarrow> p \<notin> set (children ea))
    \<and> (\<forall>s es n b. objs h' s = Some es \<and> IsScope es
          \<longrightarrow> LookupEntry h' s n b \<noteq> Some (Some p))"
proof -
  let ?p = "next_ptr h"
  let ?e = "SetTemporary True (Symbol_Var_ctor E ''__Temp'' v [] None)"
  let ?h' = "h\<lparr>objs := (objs h)(?p \<mapsto> ?e), next_ptr := Suc ?p\<rparr>"
  have run: "MakeTempSymbol E v h = (?p, ?h')" by (rule MakeTempSymbol_result)
  have free: "objs h ?p = None"
  proof (cases "objs h ?p")
    case (Some x)
    with assms(1) show ?thesis by (auto simp: heap_ok_def)
  qed simp
  have new: "objs ?h' ?p = Some ?e" by simp
  have old: "\<forall>a. a \<noteq> ?p \<longrightarrow> objs ?h' a = objs h a" by simp
  have ch: "\<forall>a ea. objs ?h' a = Some ea \<longrightarrow> ?p \<notin> set (children ea)"
  proof (intro allI impI)
    fix a ea assume a: "objs ?h' a = Some ea"
    show "?p \<notin> set (children ea)"
    proof (cases "a = ?p")
      case True
      with a have "ea = ?e" by simp
      then show ?thesis
        using children_not_scope [OF Symbol_Var_ctor_fields(6), of E "''__Temp''" v "[]" None]
        by simp
    next
      case False
      with a have "objs h a = Some ea" by simp
      with assms(1) show ?thesis by (auto simp: heap_ok_def)
    qed
  qed
  have lk: "\<forall>s es n b. objs ?h' s = Some es \<and> IsScope es
          \<longrightarrow> LookupEntry ?h' s n b \<noteq> Some (Some ?p)"
  proof (intro allI impI notI)
    fix s es n b
    assume a: "objs ?h' s = Some es \<and> IsScope es"
      and l: "LookupEntry ?h' s n b = Some (Some ?p)"
    have "s \<noteq> ?p"
    proof
      assume "s = ?p"
      with a have "IsScope ?e" by simp
      with Symbol_Var_ctor_fields(6) [of E "''__Temp''" v "[]" None] show False by simp
    qed
    with LookupEntry_never_fresh [OF l assms(2) refl] old show False by simp
  qed
  from run free new old ch lk Symbol_Var_ctor_fields [of E "''__Temp''" v "[]" None]
  show ?thesis by (intro exI [of _ ?p] exI [of _ ?h'] exI [of _ ?e]) simp
qed

text \<open>
  C7, as the code has it. In a store that satisfies the allocator's invariants,
  \<open>MakeTempSymbol\<close> allocates a new object at an address that was free: a variable of
  the kind of the value, holding the value, with the fixed name \<open>__Temp\<close>, an empty
  description, no owning scope, and marked temporary. It changes no other object, so no
  scope owns the new symbol, and no lookup on any scope, for any name, returns it.
\<close>

theorem MakeTempSymbol_temporary_unregistered:
  assumes "heap_ok h" and "pointers_ok h"
  shows "\<exists>p h' e. MakeTempSymbol E v h = (p, h') \<and> objs h p = None \<and> objs h' p = Some e
    \<and> name e = ''__Temp'' \<and> desc e = [] \<and> scope e = None \<and> is_temporary e
    \<and> derived e = (case v of V_arithmetic x \<Rightarrow> ConfigEntry_DoubleVar x
                             | V_string x \<Rightarrow> ConfigEntry_StringVar x)
    \<and> (\<forall>a. a \<noteq> p \<longrightarrow> objs h' a = objs h a)
    \<and> (\<forall>a ea. objs h' a = Some ea \<longrightarrow> p \<notin> set (children ea))
    \<and> (\<forall>s es n b. objs h' s = Some es \<and> IsScope es
          \<longrightarrow> LookupEntry h' s n b \<noteq> Some (Some p))"
  using assms by (rule MakeTempSymbol_props)

lemma pointers_ok_chain_x: "pointers_ok (snd chain_x)"
  by (auto simp: pointers_ok_def chain_defs decl_defs ctor_defs split: if_splits)

theorem MakeTempSymbol_temporary_unregistered_witness:
  "heap_ok (snd chain_x) \<and> pointers_ok (snd chain_x)
   \<and> fst (MakeTempSymbol emp_example (V_arithmetic 5) (snd chain_x)) = 4
   \<and> map_option is_temporary
       (objs (snd (MakeTempSymbol emp_example (V_arithmetic 5) (snd chain_x))) 4) = Some True
   \<and> map_option derived
       (objs (snd (MakeTempSymbol emp_example (V_arithmetic 5) (snd chain_x))) 4)
       = Some (ConfigEntry_DoubleVar 5)
   \<and> LookupEntry (snd (MakeTempSymbol emp_example (V_arithmetic 5) (snd chain_x))) 2
        ''__Temp'' True \<noteq> Some (Some 4)
   \<and> LookupEntry (snd (MakeTempSymbol emp_example (V_arithmetic 5) (snd chain_x))) 2
        ''__Temp'' True = Some None"
proof -
  let ?m = "MakeTempSymbol emp_example (V_arithmetic 5) (snd chain_x)"
  have nx: "next_ptr (snd chain_x) = 4"
    by (simp add: chain_defs decl_defs ctor_defs)
  from MakeTempSymbol_temporary_unregistered [OF heap_ok_chain_x pointers_ok_chain_x,
      of emp_example "V_arithmetic 5"]
  obtain p h' e where run: "?m = (p, h')" and o: "objs h' p = Some e"
    and t: "is_temporary e" and d: "derived e = ConfigEntry_DoubleVar 5"
    and lk: "\<forall>s es n b. objs h' s = Some es \<and> IsScope es
          \<longrightarrow> LookupEntry h' s n b \<noteq> Some (Some p)"
    by auto
  have p: "p = 4" using run nx by (simp add: MakeTempSymbol_result)
  have oC: "objs h' 2 = Some (ConfigScope_ctor emp_example ''C'' [] (Some 1) [])"
    using run chain_x_objs(7) by (auto simp: MakeTempSymbol_result nx)
  have "IsScope (ConfigScope_ctor emp_example ''C'' [] (Some 1) [])"
    by (simp add: IsScope_def ctor_defs)
  with lk oC have ne: "LookupEntry h' 2 ''__Temp'' True \<noteq> Some (Some p)" by blast
  have none: "LookupEntry (snd ?m) 2 ''__Temp'' True = Some None"
    by (simp add: MakeTempSymbol_result LookupEntry.simps chain_defs decl_defs ctor_defs)
  from heap_ok_chain_x pointers_ok_chain_x run o t d ne p none show ?thesis by simp
qed

text \<open>
  The temporary symbol made for the value 5 in the empty store has the name
  \<open>__Temp\<close>; its name is not empty.
\<close>

theorem temporary_is_named_counterexample:
  "fst (MakeTempSymbol emp_example (V_arithmetic 5) heap_empty) = 0
   \<and> name (the (objs (snd (MakeTempSymbol emp_example (V_arithmetic 5) heap_empty)) 0))
       = ''__Temp''
   \<and> name (the (objs (snd (MakeTempSymbol emp_example (V_arithmetic 5) heap_empty)) 0)) \<noteq> []"
  by (simp add: MakeTempSymbol_result heap_empty_def Symbol_Var_ctor_fields)

subsection \<open>The function adapter: the returned value\<close>

lemma MakeTempSymbol_value:
  "AsDouble E (snd (MakeTempSymbol E (V_arithmetic x) h)) (next_ptr h) = Returned x"
  "AsString E (snd (MakeTempSymbol E (V_string s) h)) (next_ptr h) = Returned s"
  by (simp_all add: MakeTempSymbol_result AsDouble_def AsString_def Symbol_Var_ctor_fields)

text \<open>
  C6. \<open>ConvertReturn\<close> hands a returned symbol pointer on unchanged, in an unchanged
  store. A returned string or arithmetic value is wrapped: the result points to a symbol
  allocated at an address that was free, marked temporary, without owning scope, holding
  the value; no other object changes, so no scope owns the new symbol and no lookup returns
  it: it belongs to the caller alone. For any other return type the result is the failed
  \<^verbatim>\<open>static_assert\<close>, whatever the store: the rejection is decided by the type.
\<close>

theorem ConvertReturn_adapts_by_type:
  assumes "heap_ok h" and "pointers_ok h"
  shows "ConvertReturn E (R_symbol_ptr q) h = Inr (q, h)
    \<and> (\<forall>v x. rv = R_string v \<or> rv = R_arithmetic x \<longrightarrow>
         (\<exists>p h' e. ConvertReturn E rv h = Inr (Some p, h')
            \<and> objs h p = None \<and> objs h' p = Some e
            \<and> is_temporary e \<and> scope e = None
            \<and> (rv = R_string v \<longrightarrow> derived e = ConfigEntry_StringVar v
                  \<and> AsString E h' p = Returned v)
            \<and> (rv = R_arithmetic x \<longrightarrow> derived e = ConfigEntry_DoubleVar x
                  \<and> AsDouble E h' p = Returned x)
            \<and> (\<forall>a. a \<noteq> p \<longrightarrow> objs h' a = objs h a)
            \<and> (\<forall>a ea. objs h' a = Some ea \<longrightarrow> p \<notin> set (children ea))
            \<and> (\<forall>s es n b. objs h' s = Some es \<and> IsScope es
                  \<longrightarrow> LookupEntry h' s n b \<noteq> Some (Some p))))
    \<and> ConvertReturn E R_other h
        = Inl (Static_assert ''Invalid return value in Symbol_Function::SetFunction()'')"
proof (intro conjI allI impI)
  show "ConvertReturn E (R_symbol_ptr q) h = Inr (q, h)"
    by (simp add: ConvertReturn_def)
next
  show "ConvertReturn E R_other h
        = Inl (Static_assert ''Invalid return value in Symbol_Function::SetFunction()'')"
    by (simp add: ConvertReturn_def)
next
  fix v x assume rv: "rv = R_string v \<or> rv = R_arithmetic x"
  define val where "val = (case rv of R_string s \<Rightarrow> V_string s | _ \<Rightarrow> V_arithmetic x)"
  from rv have cr: "ConvertReturn E rv h
      = Inr (Some (fst (MakeTempSymbol E val h)), snd (MakeTempSymbol E val h))"
    by (auto simp: ConvertReturn_def val_def split: prod.splits)
  from MakeTempSymbol_props [OF assms, of E val]
  obtain p h' e where run: "MakeTempSymbol E val h = (p, h')"
    and fr: "objs h p = None" and o: "objs h' p = Some e"
    and sc: "scope e = None" and tmp: "is_temporary e"
    and d: "derived e = (case val of V_arithmetic x \<Rightarrow> ConfigEntry_DoubleVar x
                             | V_string x \<Rightarrow> ConfigEntry_StringVar x)"
    and old: "\<forall>a. a \<noteq> p \<longrightarrow> objs h' a = objs h a"
    and ch: "\<forall>a ea. objs h' a = Some ea \<longrightarrow> p \<notin> set (children ea)"
    and lk: "\<forall>s es n b. objs h' s = Some es \<and> IsScope es
          \<longrightarrow> LookupEntry h' s n b \<noteq> Some (Some p)"
    by blast
  have p: "p = next_ptr h" using run by (simp add: MakeTempSymbol_result)
  have s: "rv = R_string v \<longrightarrow> derived e = ConfigEntry_StringVar v
      \<and> AsString E h' p = Returned v"
    using d o by (auto simp: val_def AsString_def)
  have a: "rv = R_arithmetic x \<longrightarrow> derived e = ConfigEntry_DoubleVar x
      \<and> AsDouble E h' p = Returned x"
    using d o by (auto simp: val_def AsDouble_def)
  from cr run fr o sc tmp s a old ch lk
  show "\<exists>p h' e. ConvertReturn E rv h = Inr (Some p, h')
            \<and> objs h p = None \<and> objs h' p = Some e
            \<and> is_temporary e \<and> scope e = None
            \<and> (rv = R_string v \<longrightarrow> derived e = ConfigEntry_StringVar v
                  \<and> AsString E h' p = Returned v)
            \<and> (rv = R_arithmetic x \<longrightarrow> derived e = ConfigEntry_DoubleVar x
                  \<and> AsDouble E h' p = Returned x)
            \<and> (\<forall>a. a \<noteq> p \<longrightarrow> objs h' a = objs h a)
            \<and> (\<forall>a ea. objs h' a = Some ea \<longrightarrow> p \<notin> set (children ea))
            \<and> (\<forall>s es n b. objs h' s = Some es \<and> IsScope es
                  \<longrightarrow> LookupEntry h' s n b \<noteq> Some (Some p))"
    by (intro exI [of _ p] exI [of _ h'] exI [of _ e]) simp
qed


theorem ConvertReturn_adapts_by_type_witness:
  "heap_ok (snd chain_x) \<and> pointers_ok (snd chain_x)
   \<and> ConvertReturn emp_example (R_symbol_ptr (Some 3)) (snd chain_x) = Inr (Some 3, snd chain_x)
   \<and> ConvertReturn emp_example (R_string ''abc'') (snd chain_x)
       = Inr (Some 4, snd (MakeTempSymbol emp_example (V_string ''abc'') (snd chain_x)))
   \<and> AsString emp_example (snd (MakeTempSymbol emp_example (V_string ''abc'') (snd chain_x))) 4
       = Returned ''abc''
   \<and> map_option is_temporary
        (objs (snd (MakeTempSymbol emp_example (V_string ''abc'') (snd chain_x))) 4) = Some True
   \<and> LookupEntry (snd (MakeTempSymbol emp_example (V_string ''abc'') (snd chain_x))) 0
        ''x'' True \<noteq> Some (Some 4)"
proof -
  let ?h = "snd chain_x"
  let ?m = "MakeTempSymbol emp_example (V_string ''abc'') ?h"
  have nx: "next_ptr ?h = 4"
    by (simp add: chain_defs decl_defs ctor_defs)
  note t = ConvertReturn_adapts_by_type [OF heap_ok_chain_x pointers_ok_chain_x,
      of emp_example "Some 3" "R_string ''abc''"]
  from t have ptr: "ConvertReturn emp_example (R_symbol_ptr (Some 3)) ?h = Inr (Some 3, ?h)"
    by (rule conjunct1)
  from t [THEN conjunct2, THEN conjunct1, rule_format, of "''abc''" 0]
  obtain p h' e where cr: "ConvertReturn emp_example (R_string ''abc'') ?h = Inr (Some p, h')"
    and o: "objs h' p = Some e" and tmp: "is_temporary e"
    and v: "AsString emp_example h' p = Returned ''abc''"
    and lk: "\<forall>s es n b. objs h' s = Some es \<and> IsScope es
                  \<longrightarrow> LookupEntry h' s n b \<noteq> Some (Some p)"
    by auto
  have cr': "ConvertReturn emp_example (R_string ''abc'') ?h = Inr (Some 4, snd ?m)"
    by (simp add: ConvertReturn_def MakeTempSymbol_result nx)
  with cr have p: "p = 4" and h': "h' = snd ?m" by simp_all
  have oA: "objs (snd ?m) 0 = Some (ConfigScope_ctor emp_example ''A'' [] None []
      \<lparr>derived := ConfigScope [1, 3] [] [''B'' \<mapsto> 1, ''x'' \<mapsto> 3] []\<rparr>)"
    using chain_x_objs(5) by (simp add: MakeTempSymbol_result nx)
  have "IsScope (ConfigScope_ctor emp_example ''A'' [] None []
      \<lparr>derived := ConfigScope [1, 3] [] [''B'' \<mapsto> 1, ''x'' \<mapsto> 3] []\<rparr>)"
    by (simp add: IsScope_def)
  with lk oA p h' have "LookupEntry (snd ?m) 0 ''x'' True \<noteq> Some (Some 4)" by blast
  with heap_ok_chain_x pointers_ok_chain_x ptr cr' o tmp v p h' show ?thesis by simp
qed

subsection \<open>The function adapter: calls\<close>

lemma convert_args_first:
  "length vs = length Ts \<Longrightarrow> i + length Ts \<le> length args
   \<Longrightarrow> (\<forall>j<length Ts. As E h (Ts ! j) (args ! (i + j)) = Returned (vs ! j))
   \<Longrightarrow> convert_args E h Ts args i = Returned vs"
proof (induction Ts arbitrary: i vs)
  case Nil
  then show ?case by simp
next
  case (Cons T Ts)
  from Cons.prems(1) obtain v vs' where vs: "vs = v # vs'" and len: "length vs' = length Ts"
    by (cases vs) auto
  from Cons.prems(2) have i: "i < length args" and rest: "Suc i + length Ts \<le> length args"
    by simp_all
  from Cons.prems(3) [rule_format, of 0] vs have a0: "As E h T (args ! i) = Returned v"
    by simp
  have "\<forall>j<length Ts. As E h (Ts ! j) (args ! (Suc i + j)) = Returned (vs' ! j)"
  proof (intro allI impI)
    fix j assume "j < length Ts"
    with Cons.prems(3) [rule_format, of "Suc j"] vs
    show "As E h (Ts ! j) (args ! (Suc i + j)) = Returned (vs' ! j)" by simp
  qed
  from Cons.IH [OF len rest this] a0 i vs show ?case
    by (simp add: vector_at_def bind_outcome_def)
qed

lemma WrapFunction_values:
  assumes "length vs = length (T # Ts)" and "length (T # Ts) \<le> length args"
    and "\<forall>j<length (T # Ts). As E h ((T # Ts) ! j) (args ! j) = Returned (vs ! j)"
  shows "WrapFunction E n (Fun_values (T # Ts) g) args h cerr
     = (case ConvertReturn E (g vs) h of
          Inl err \<Rightarrow> Inl err
        | Inr res \<Rightarrow> Inr (Returned res,
            if length args \<noteq> length (T # Ts)
            then cerr @ arity_message n (length (T # Ts)) (length args) else cerr))"
proof -
  have "convert_args E h (T # Ts) args 0 = Returned vs"
    using assms by (intro convert_args_first) simp_all
  then show ?thesis
    by (simp add: WrapFunction_def Let_def split: sum.splits)
qed



lemma returns_symbol_for_ConvertReturn:
  "returns_symbol_for E rv h cerr
     (case ConvertReturn E rv h of
        Inl err \<Rightarrow> Inl err
      | Inr res \<Rightarrow> Inr (Returned res, cerr))"
proof (cases rv)
  case (R_symbol_ptr q)
  then show ?thesis by (simp add: returns_symbol_for_def ConvertReturn_def)
next
  case (R_string s)
  have "AsString E (snd (MakeTempSymbol E (V_string s) h)) (fst (MakeTempSymbol E (V_string s) h))
      = Returned s"
    using MakeTempSymbol_value(2) [of E s h] by (simp add: MakeTempSymbol_result)
  with R_string show ?thesis
    by (auto simp: returns_symbol_for_def ConvertReturn_def split: prod.splits)
next
  case (R_arithmetic x)
  have "AsDouble E (snd (MakeTempSymbol E (V_arithmetic x) h))
      (fst (MakeTempSymbol E (V_arithmetic x) h)) = Returned x"
    using MakeTempSymbol_value(1) [of E x h] by (simp add: MakeTempSymbol_result)
  with R_arithmetic show ?thesis
    by (auto simp: returns_symbol_for_def ConvertReturn_def split: prod.splits)
next
  case R_other
  then show ?thesis by (simp add: returns_symbol_for_def ConvertReturn_def)
qed



lemma WrapMemberFunction_cast:
  assumes "DynamicCast obj C = Some t"
  shows "WrapMemberFunction E C n (Member_symbols C g) obj args h cerr
      = (case ConvertReturn E (g t h args) h of
          Inl err \<Rightarrow> Inl err
        | Inr res \<Rightarrow> Inr (Returned res, cerr))"
    and "WrapMemberFunction E C n (Member_values C [] g') obj args h cerr
      = (case ConvertReturn E (g' t []) h of
          Inl err \<Rightarrow> Inl err
        | Inr res \<Rightarrow> Inr (Returned res,
            if length args \<noteq> 0 then cerr @ zero_arity_message n (length args) else cerr))"
    and "WrapMemberFunction E C n (Member_values C (P # Ps) g') obj args h cerr
      = (case convert_args E h (P # Ps) args 0 of
           Returned vs \<Rightarrow>
             (case ConvertReturn E (g' t vs) h of
                Inl err \<Rightarrow> Inl err
              | Inr res \<Rightarrow> Inr (Returned res,
                  if length args \<noteq> length (P # Ps)
                  then cerr @ arity_message n (length (P # Ps)) (length args) else cerr))
         | Aborted \<Rightarrow> Inr (Aborted,
                  if length args \<noteq> length (P # Ps)
                  then cerr @ arity_message n (length (P # Ps)) (length args) else cerr)
         | Undefined \<Rightarrow> Inr (Undefined,
                  if length args \<noteq> length (P # Ps)
                  then cerr @ arity_message n (length (P # Ps)) (length args) else cerr))"
  using assms
  by (simp_all add: WrapMemberFunction_def ConvertMemberFun_def emp_assert_def deref_def
      bind_outcome_def Let_def split: outcome.splits sum.splits)

lemma WrapMemberFunction_values:
  assumes "DynamicCast obj C = Some t"
    and "length vs = length Ts" and "length Ts \<le> length args"
    and "\<forall>j<length Ts. As E h (Ts ! j) (args ! j) = Returned (vs ! j)"
  shows "WrapMemberFunction E C n (Member_values C Ts g) obj args h cerr
     = (case ConvertReturn E (g t vs) h of
          Inl err \<Rightarrow> Inl err
        | Inr res \<Rightarrow> Inr (Returned res,
            if length args \<noteq> length Ts
            then cerr @ (if Ts = [] then zero_arity_message n (length args)
                         else arity_message n (length Ts) (length args))
            else cerr))"
proof (cases Ts)
  case Nil
  with assms show ?thesis by (simp add: WrapMemberFunction_cast(2))
next
  case (Cons P Ps)
  have "convert_args E h Ts args 0 = Returned vs"
    using assms by (intro convert_args_first) simp_all
  then have ca: "convert_args E h (P # Ps) args 0 = Returned vs"
    using Cons by simp
  show ?thesis
    unfolding Cons WrapMemberFunction_cast(3) [OF assms(1)] ca by simp
qed

lemma zero_arity_message_text:
  "zero_arity_message n received
     = ''Error in call to function '' @ [CHR 0x27] @ n @ [CHR 0x27]
       @ ''; expected ZERO arguments, but received '' @ string_of_nat received
       @ ''.'' @ endl"
  by (simp add: zero_arity_message_def)

lemma WrapFunction_report:
  assumes "length args \<noteq> length (T # Ts)"
    and "WrapFunction E n (Fun_values (T # Ts) g) args h cerr = Inr (out, c)"
  shows "c = cerr @ arity_message n (length (T # Ts)) (length args)"
  using assms
  by (simp add: WrapFunction_def Let_def del: convert_args.simps
      split: outcome.splits sum.splits)

lemma WrapMemberFunction_report:
  assumes "DynamicCast obj C = Some t" and "length args \<noteq> length (P # Ps)"
    and "WrapMemberFunction E C n (Member_values C (P # Ps) g) obj args h cerr = Inr (out, c)"
  shows "c = cerr @ arity_message n (length (P # Ps)) (length args)"
  using assms(2,3) unfolding WrapMemberFunction_cast(3) [OF assms(1)]
  by (simp del: convert_args.simps split: outcome.splits sum.splits)


lemma two_three_objs:
  "next_ptr two_three = 2"
  "As emp_example two_three P_arithmetic (Some 0) = Returned (A_arithmetic 2)"
  "As emp_example two_three P_arithmetic (Some 1) = Returned (A_arithmetic 3)"
  by (simp_all add: two_three_def MakeTempSymbol_result heap_empty_def As_def AsDouble_def
      bind_outcome_def Symbol_Var_ctor_fields)

lemma counter_cast: "DynamicCast counter ''Counter'' = Some counter"
  by (simp add: DynamicCast_def counter_def)



lemma arity_message_text:
  "arity_message n expected received
     = ''Error in call to function '' @ [CHR 0x27] @ n @ [CHR 0x27] @ ''; expected ''
       @ string_of_nat expected @ '' arguments, but received '' @ string_of_nat received
       @ ''.'' @ endl"
  by (simp add: arity_message_def)

text \<open>
  C5, as the code has it. A wrapped function with value parameters called with a number of
  arguments other than the number of parameters appends to the error stream the message
  naming the function, the expected and the received count, whatever happens next. If there
  are more arguments than parameters and the leading arguments convert, it goes on and
  returns a symbol for the result of the native function on the leading arguments. The same
  holds for a wrapped member function called on an object of its class; a member function
  without further parameters called with arguments reports that it expected ZERO arguments
  and returns a symbol for its result. A wrapped free function without parameters is guarded
  by an assertion instead: called with arguments it aborts, and when assertions are compiled
  out it returns a symbol for the function's result and reports nothing. A function that
  takes the argument list itself is called whatever the number of arguments, and nothing is
  reported.
\<close>

theorem WrapFunction_reports_surplus_arguments:
  "(\<forall>T Ts g vs. length (T # Ts) < length args \<and> length vs = length (T # Ts)
        \<and> (\<forall>j<length (T # Ts). As E h ((T # Ts) ! j) (args ! j) = Returned (vs ! j))
      \<longrightarrow> returns_symbol_for E (g vs) h
            (cerr @ ''Error in call to function '' @ [CHR 0x27] @ n @ [CHR 0x27]
               @ ''; expected '' @ string_of_nat (length (T # Ts))
               @ '' arguments, but received '' @ string_of_nat (length args) @ ''.'' @ endl)
            (WrapFunction E n (Fun_values (T # Ts) g) args h cerr))
   \<and> (\<forall>T Ts g out c. length args \<noteq> length (T # Ts)
        \<and> WrapFunction E n (Fun_values (T # Ts) g) args h cerr = Inr (out, c)
      \<longrightarrow> c = cerr @ ''Error in call to function '' @ [CHR 0x27] @ n @ [CHR 0x27]
               @ ''; expected '' @ string_of_nat (length (T # Ts))
               @ '' arguments, but received '' @ string_of_nat (length args) @ ''.'' @ endl)
   \<and> (\<forall>g. args \<noteq> [] \<and> NDEBUG E
      \<longrightarrow> returns_symbol_for E (g []) h cerr (WrapFunction E n (Fun_values [] g) args h cerr))
   \<and> (\<forall>g. args \<noteq> [] \<and> \<not> NDEBUG E
      \<longrightarrow> WrapFunction E n (Fun_values [] g) args h cerr = Inr (Aborted, cerr))
   \<and> (\<forall>g. returns_symbol_for E (g h args) h cerr
            (WrapFunction E n (Fun_symbols g) args h cerr))
   \<and> (\<forall>C P Ps g vs t. DynamicCast obj C = Some t
        \<and> length (P # Ps) < length args \<and> length vs = length (P # Ps)
        \<and> (\<forall>j<length (P # Ps). As E h ((P # Ps) ! j) (args ! j) = Returned (vs ! j))
      \<longrightarrow> returns_symbol_for E (g t vs) h
            (cerr @ ''Error in call to function '' @ [CHR 0x27] @ n @ [CHR 0x27]
               @ ''; expected '' @ string_of_nat (length (P # Ps))
               @ '' arguments, but received '' @ string_of_nat (length args) @ ''.'' @ endl)
            (WrapMemberFunction E C n (Member_values C (P # Ps) g) obj args h cerr))
   \<and> (\<forall>C P Ps g t out c. DynamicCast obj C = Some t \<and> length args \<noteq> length (P # Ps)
        \<and> WrapMemberFunction E C n (Member_values C (P # Ps) g) obj args h cerr = Inr (out, c)
      \<longrightarrow> c = cerr @ ''Error in call to function '' @ [CHR 0x27] @ n @ [CHR 0x27]
               @ ''; expected '' @ string_of_nat (length (P # Ps))
               @ '' arguments, but received '' @ string_of_nat (length args) @ ''.'' @ endl)
   \<and> (\<forall>C g t. DynamicCast obj C = Some t \<and> args \<noteq> []
      \<longrightarrow> returns_symbol_for E (g t []) h
            (cerr @ ''Error in call to function '' @ [CHR 0x27] @ n @ [CHR 0x27]
               @ ''; expected ZERO arguments, but received '' @ string_of_nat (length args)
               @ ''.'' @ endl)
            (WrapMemberFunction E C n (Member_values C [] g) obj args h cerr))
   \<and> (\<forall>C g t. DynamicCast obj C = Some t
      \<longrightarrow> returns_symbol_for E (g t h args) h cerr
            (WrapMemberFunction E C n (Member_symbols C g) obj args h cerr))"
proof (intro conjI allI impI)
  fix T Ts g vs
  assume a: "length (T # Ts) < length args \<and> length vs = length (T # Ts)
        \<and> (\<forall>j<length (T # Ts). As E h ((T # Ts) ! j) (args ! j) = Returned (vs ! j))"
  then have "WrapFunction E n (Fun_values (T # Ts) g) args h cerr
      = (case ConvertReturn E (g vs) h of
          Inl err \<Rightarrow> Inl err
        | Inr res \<Rightarrow> Inr (Returned res,
            cerr @ arity_message n (length (T # Ts)) (length args)))"
    using WrapFunction_values [of vs T Ts args E h n g cerr] by simp
  then show "returns_symbol_for E (g vs) h
            (cerr @ ''Error in call to function '' @ [CHR 0x27] @ n @ [CHR 0x27]
               @ ''; expected '' @ string_of_nat (length (T # Ts))
               @ '' arguments, but received '' @ string_of_nat (length args) @ ''.'' @ endl)
            (WrapFunction E n (Fun_values (T # Ts) g) args h cerr)"
    using returns_symbol_for_ConvertReturn
      [of E "g vs" h "cerr @ arity_message n (length (T # Ts)) (length args)"]
    by (simp only: arity_message_text)
next
  fix T Ts g out c
  assume "length args \<noteq> length (T # Ts)
        \<and> WrapFunction E n (Fun_values (T # Ts) g) args h cerr = Inr (out, c)"
  then have "c = cerr @ arity_message n (length (T # Ts)) (length args)"
    using WrapFunction_report by blast
  then show "c = cerr @ ''Error in call to function '' @ [CHR 0x27] @ n @ [CHR 0x27]
               @ ''; expected '' @ string_of_nat (length (T # Ts))
               @ '' arguments, but received '' @ string_of_nat (length args) @ ''.'' @ endl"
    by (simp only: arity_message_text)
next
  fix g assume "args \<noteq> [] \<and> NDEBUG E"
  then have "WrapFunction E n (Fun_values [] g) args h cerr
      = (case ConvertReturn E (g []) h of
          Inl err \<Rightarrow> Inl err
        | Inr res \<Rightarrow> Inr (Returned res, cerr))"
    by (simp add: WrapFunction_def emp_assert_def)
  then show "returns_symbol_for E (g []) h cerr (WrapFunction E n (Fun_values [] g) args h cerr)"
    by (simp add: returns_symbol_for_ConvertReturn)
next
  fix g assume "args \<noteq> [] \<and> \<not> NDEBUG E"
  then show "WrapFunction E n (Fun_values [] g) args h cerr = Inr (Aborted, cerr)"
    by (simp add: WrapFunction_def emp_assert_def)
next
  fix g
  have "WrapFunction E n (Fun_symbols g) args h cerr
      = (case ConvertReturn E (g h args) h of
          Inl err \<Rightarrow> Inl err
        | Inr res \<Rightarrow> Inr (Returned res, cerr))"
    by (simp add: WrapFunction_def)
  then show "returns_symbol_for E (g h args) h cerr (WrapFunction E n (Fun_symbols g) args h cerr)"
    by (simp add: returns_symbol_for_ConvertReturn)
next
  fix C P Ps g vs t
  assume a: "DynamicCast obj C = Some t
        \<and> length (P # Ps) < length args \<and> length vs = length (P # Ps)
        \<and> (\<forall>j<length (P # Ps). As E h ((P # Ps) ! j) (args ! j) = Returned (vs ! j))"
  then have "WrapMemberFunction E C n (Member_values C (P # Ps) g) obj args h cerr
      = (case ConvertReturn E (g t vs) h of
          Inl err \<Rightarrow> Inl err
        | Inr res \<Rightarrow> Inr (Returned res,
            cerr @ arity_message n (length (P # Ps)) (length args)))"
    using WrapMemberFunction_values [of obj C t vs "P # Ps" args E h n g cerr] by simp
  then show "returns_symbol_for E (g t vs) h
            (cerr @ ''Error in call to function '' @ [CHR 0x27] @ n @ [CHR 0x27]
               @ ''; expected '' @ string_of_nat (length (P # Ps))
               @ '' arguments, but received '' @ string_of_nat (length args) @ ''.'' @ endl)
            (WrapMemberFunction E C n (Member_values C (P # Ps) g) obj args h cerr)"
    using returns_symbol_for_ConvertReturn
      [of E "g t vs" h "cerr @ arity_message n (length (P # Ps)) (length args)"]
    by (simp only: arity_message_text)
next
  fix C P Ps g t out c
  assume "DynamicCast obj C = Some t \<and> length args \<noteq> length (P # Ps)
        \<and> WrapMemberFunction E C n (Member_values C (P # Ps) g) obj args h cerr = Inr (out, c)"
  then have "c = cerr @ arity_message n (length (P # Ps)) (length args)"
    using WrapMemberFunction_report by blast
  then show "c = cerr @ ''Error in call to function '' @ [CHR 0x27] @ n @ [CHR 0x27]
               @ ''; expected '' @ string_of_nat (length (P # Ps))
               @ '' arguments, but received '' @ string_of_nat (length args) @ ''.'' @ endl"
    by (simp only: arity_message_text)
next
  fix C g t
  assume a: "DynamicCast obj C = Some t \<and> args \<noteq> []"
  then have "WrapMemberFunction E C n (Member_values C [] g) obj args h cerr
      = (case ConvertReturn E (g t []) h of
          Inl err \<Rightarrow> Inl err
        | Inr res \<Rightarrow> Inr (Returned res, cerr @ zero_arity_message n (length args)))"
    using WrapMemberFunction_cast(2) [of obj C t E n g args h cerr] by simp
  then show "returns_symbol_for E (g t []) h
            (cerr @ ''Error in call to function '' @ [CHR 0x27] @ n @ [CHR 0x27]
               @ ''; expected ZERO arguments, but received '' @ string_of_nat (length args)
               @ ''.'' @ endl)
            (WrapMemberFunction E C n (Member_values C [] g) obj args h cerr)"
    using returns_symbol_for_ConvertReturn
      [of E "g t []" h "cerr @ zero_arity_message n (length args)"]
    by (simp only: zero_arity_message_text)
next
  fix C g t assume "DynamicCast obj C = Some t"
  from WrapMemberFunction_cast(1) [OF this]
  show "returns_symbol_for E (g t h args) h cerr
      (WrapMemberFunction E C n (Member_symbols C g) obj args h cerr)"
    by (simp add: returns_symbol_for_ConvertReturn)
qed

theorem WrapFunction_reports_surplus_arguments_witness:
  "length [P_arithmetic, P_arithmetic] < length [Some 0, Some 1, Some (0::addr)]
   \<and> As emp_example two_three P_arithmetic (Some 0) = Returned (A_arithmetic 2)
   \<and> As emp_example two_three P_arithmetic (Some 1) = Returned (A_arithmetic 3)
   \<and> WrapFunction emp_example ''add'' add [Some 0, Some 1, Some 0] two_three []
       = Inr (Returned (Some 2, snd (MakeTempSymbol emp_example (V_arithmetic 5) two_three)),
           ''Error in call to function '' @ [CHR 0x27] @ ''add'' @ [CHR 0x27]
             @ ''; expected 2 arguments, but received 3.'' @ endl)
   \<and> AsDouble emp_example (snd (MakeTempSymbol emp_example (V_arithmetic 5) two_three)) 2
       = Returned 5
   \<and> \<not> NDEBUG emp_example
   \<and> WrapFunction emp_example ''f'' zero_args [Some 0] two_three [] = Inr (Aborted, [])
   \<and> DynamicCast counter ''Counter'' = Some counter
   \<and> WrapMemberFunction emp_example ''Counter'' ''get'' get_state counter [Some 0] two_three []
       = Inr (Returned (Some 2, snd (MakeTempSymbol emp_example (V_arithmetic 7) two_three)),
           ''Error in call to function '' @ [CHR 0x27] @ ''get'' @ [CHR 0x27]
             @ ''; expected ZERO arguments, but received 1.'' @ endl)
   \<and> AsDouble emp_example (snd (MakeTempSymbol emp_example (V_arithmetic 7) two_three)) 2
       = Returned 7"
proof -
  let ?args = "[Some 0, Some 1, Some (0::addr)]"
  let ?vs = "[A_arithmetic 2, A_arithmetic 3]"
  let ?g = "\<lambda>vs. case vs of
        [A_arithmetic a, A_arithmetic b] \<Rightarrow> R_arithmetic (a + b)
      | _ \<Rightarrow> R_other"
  let ?msg = "''Error in call to function '' @ [CHR 0x27] @ ''add'' @ [CHR 0x27]
             @ ''; expected 2 arguments, but received 3.'' @ endl"
  let ?zmsg = "''Error in call to function '' @ [CHR 0x27] @ ''get'' @ [CHR 0x27]
             @ ''; expected ZERO arguments, but received 1.'' @ endl"
  note t = WrapFunction_reports_surplus_arguments [of ?args emp_example two_three "[]" "''add''"]
  have conv: "\<forall>j<length [P_arithmetic, P_arithmetic].
      As emp_example two_three ([P_arithmetic, P_arithmetic] ! j) (?args ! j) = Returned (?vs ! j)"
    using two_three_objs(2,3) by (auto simp: less_Suc_eq)
  from t [THEN conjunct1, rule_format, of P_arithmetic "[P_arithmetic]" ?vs ?g] conv
  have "returns_symbol_for emp_example (?g ?vs) two_three ?msg
      (WrapFunction emp_example ''add'' add ?args two_three [])"
    by (simp add: add_def digit_char_def)
  then obtain p h' where
    r: "WrapFunction emp_example ''add'' add ?args two_three [] = Inr (Returned (Some p, h'), ?msg)"
    and v: "AsDouble emp_example h' p = Returned 5"
    by (auto simp: returns_symbol_for_def)
  have run: "WrapFunction emp_example ''add'' add ?args two_three []
      = Inr (Returned (Some 2, snd (MakeTempSymbol emp_example (V_arithmetic 5) two_three)), ?msg)"
    using two_three_objs
    by (simp add: WrapFunction_def add_def vector_at_def bind_outcome_def ConvertReturn_def
        MakeTempSymbol_result arity_message_def digit_char_def)
  have nd: "\<not> NDEBUG emp_example" by (simp add: emp_example_def)
  have ab: "WrapFunction emp_example ''f'' zero_args [Some 0] two_three [] = Inr (Aborted, [])"
    using WrapFunction_reports_surplus_arguments [of "[Some 0]" emp_example two_three "[]" "''f''",
      THEN conjunct2, THEN conjunct2, THEN conjunct2, THEN conjunct1, rule_format,
      of "\<lambda>vs. R_arithmetic 1"] nd
    by (simp add: zero_args_def)
  from WrapFunction_reports_surplus_arguments [of "[Some 0]" emp_example two_three "[]" "''get''" counter,
      THEN conjunct2, THEN conjunct2, THEN conjunct2, THEN conjunct2, THEN conjunct2,
      THEN conjunct2, THEN conjunct2, THEN conjunct1, rule_format,
      of "''Counter''" counter "\<lambda>obj vs. R_arithmetic (state obj)"] counter_cast
  have "returns_symbol_for emp_example (R_arithmetic (state counter)) two_three ?zmsg
      (WrapMemberFunction emp_example ''Counter'' ''get'' get_state counter [Some 0] two_three [])"
    by (simp add: get_state_def digit_char_def)
  then obtain q k' where
    rm: "WrapMemberFunction emp_example ''Counter'' ''get'' get_state counter [Some 0] two_three []
        = Inr (Returned (Some q, k'), ?zmsg)"
    and vm: "AsDouble emp_example k' q = Returned 7"
    by (auto simp: returns_symbol_for_def counter_def)
  have runm: "WrapMemberFunction emp_example ''Counter'' ''get'' get_state counter [Some 0]
        two_three []
      = Inr (Returned (Some 2, snd (MakeTempSymbol emp_example (V_arithmetic 7) two_three)), ?zmsg)"
    using two_three_objs(1)
    by (simp add: WrapMemberFunction_def ConvertMemberFun_def get_state_def counter_def
        DynamicCast_def deref_def emp_assert_def ConvertReturn_def MakeTempSymbol_result
        zero_arity_message_def digit_char_def)
  from r v run nd ab rm vm runm two_three_objs counter_cast show ?thesis by simp
qed

text \<open>
  A function of no parameters called with one argument. In a build with assertions the
  call aborts. With assertions compiled out the call returns, and nothing has been written
  to the error stream.
\<close>

theorem zero_arity_mismatch_counterexample:
  "WrapFunction emp_example ''f'' zero_args [Some 0] two_three [] = Inr (Aborted, [])
   \<and> WrapFunction (emp_example\<lparr>NDEBUG := True\<rparr>) ''f'' zero_args [Some 0] two_three []
       = Inr (Returned (Some 2,
           snd (MakeTempSymbol (emp_example\<lparr>NDEBUG := True\<rparr>) (V_arithmetic 1) two_three)), [])"
  using two_three_objs(1)
  by (simp add: WrapFunction_def zero_args_def emp_assert_def emp_example_def ConvertReturn_def
      MakeTempSymbol_result)

text \<open>
  The two-parameter function called with one argument: the mismatch is reported, and the
  conversion of the second argument then reads \<^verbatim>\<open>args[1]\<close> out of range.
\<close>

lemma WrapFunction_too_few_arguments:
  "WrapFunction emp_example ''add'' add [Some 0] two_three []
     = Inr (Aborted, ''Error in call to function '' @ [CHR 0x27] @ ''add'' @ [CHR 0x27]
             @ ''; expected 2 arguments, but received 1.'' @ endl)"
  using two_three_objs
  by (simp add: WrapFunction_def add_def vector_at_def bind_outcome_def emp_assert_def
      emp_example_def arity_message_def digit_char_def)

text \<open>
  The two-parameter function called with three arguments, the first a scope: the mismatch
  is reported, and the conversion of the first argument then fails its assertion.
\<close>

lemma WrapFunction_surplus_unconvertible:
  "WrapFunction emp_example ''add'' add [Some 0, Some 3, Some 3] (snd chain_x) []
     = Inr (Aborted, ''Error in call to function '' @ [CHR 0x27] @ ''add'' @ [CHR 0x27]
             @ ''; expected 2 arguments, but received 3.'' @ endl)"
  by (simp add: WrapFunction_def add_def vector_at_def bind_outcome_def As_def AsDouble_def
      emp_assert_def emp_example_def arity_message_def digit_char_def
      chain_defs decl_defs ctor_defs eval_nat_numeral)

end
